theory Spec2Isabelle
  imports Complex_Main
begin

section \<open>The candle-driven exchange simulator of \<open>bots/backtest_bot.py\<close>\<close>

text \<open>
  The development embeds \<open>BacktestBot\<close>: the per-candle step
  \<open>execute_exchange_logic\<close>, the driver loop \<open>start_websocket\<close> and the two
  entry points \<open>create_orders\<close> and \<open>cancel_orders\<close>.  The source computes in
  64-bit floating point; the model computes in \<open>real\<close>, so every comparison of the
  source is the same comparison here and rounding error is left out.
\<close>

subsection \<open>Data model\<close>

text \<open>
  The constants imported from \<open>definitions.order\<close>.  \<open>CALCULATED\<close> is passed in
  the type slot of the \<open>Order\<close> constructor by the liquidation branch, \<open>LQ\<close> in
  its action slot.  \<open>create_orders\<close> and \<open>cancel_orders\<close> test the position side
  with \<open>if ... == LONG ... elif ... == SHORT\<close> and no \<open>else\<close>, so the field can
  hold a value that is neither; \<open>OTHER_SIDE\<close> stands for any such value.
\<close>

datatype order_type = MARKET | LIMIT | TP | SL | CALCULATED
datatype order_side = BUY | SELL
datatype order_action = NEW | PARTIALLY_FILLED | FILLED | CANCELED | LQ
datatype pos_side = LONG | SHORT | OTHER_SIDE

text \<open>
  \<open>Order(symbol, order_id, price, stop_price, qty, type, side, timestamp, action,
  position_side)\<close>: the ten positional arguments of the constructor calls on lines
  114 and 120.
\<close>

record Order =
  symbol :: string
  order_id :: int
  price :: real
  stop_price :: real
  qty :: real
  otype :: order_type
  side :: order_side
  timestamp :: int
  action :: order_action
  position_side :: pos_side

text \<open>
  \<open>Position(symbol, size, price, liquidation_price, _, leverage, position_side)\<close>:
  the seven positional arguments of the constructor calls on lines 117 and 124.  The
  source reads the size of a position both as \<open>.size\<close> and as \<open>.qty\<close>; the model
  has the one field \<open>p_size\<close>.  The fifth argument is never read by the step.
\<close>

record Position =
  p_symbol :: string
  p_size :: real
  p_price :: real
  p_liquidation_price :: real
  p_fifth :: real
  p_leverage :: real
  p_position_side :: pos_side

record Candle =
  c_open :: real
  c_high :: real
  c_low :: real
  c_close :: real
  c_volume :: real

record OrderList =
  long :: "Order list"
  short :: "Order list"

text \<open>
  The two callbacks of the bot are its only outputs; the model records every call, in
  order, in the field \<open>trace\<close> of the bot.
\<close>

datatype event =
  OrderUpdate Order
  | AccountUpdate real Position Position

record BacktestBot =
  quantity_step :: real
  price_step :: real
  call_interval :: real
  leverage :: real
  bot_symbol :: string
  maker_fee :: real
  taker_fee :: real
  latency :: real
  balance :: real
  pos_long :: Position
  pos_short :: Position
  open_orders :: OrderList
  orders_to_execute :: OrderList
  current_timestamp :: int
  trace :: "event list"

subsection \<open>The math kernel (\<open>helpers.optimized\<close>)\<close>

text \<open>
  Modelled from the spec: \<open>round_down\<close> of \<open>helpers.optimized\<close> is not among the
  sources.  Section 4.1: the largest multiple of \<open>step\<close> that is at most \<open>x\<close>
  (for a positive step).
\<close>

definition round_down :: "real \<Rightarrow> real \<Rightarrow> real" where
  "round_down x step = real_of_int \<lfloor>x / step\<rfloor> * step"

text \<open>
  Modelled from the spec: \<open>quantity_to_cost\<close>, \<open>calculate_long_pnl\<close> and
  \<open>calculate_short_pnl\<close> of \<open>helpers.optimized\<close> are not among the sources.
  Section 4.1 gives them for linear contracts, and every call of the step passes
  \<open>inverse = False\<close>, so the flag is left out.
\<close>

definition quantity_to_cost :: "real \<Rightarrow> real \<Rightarrow> real \<Rightarrow> real" where
  "quantity_to_cost q p c_mult = q * p * c_mult"

definition calculate_long_pnl :: "real \<Rightarrow> real \<Rightarrow> real \<Rightarrow> real \<Rightarrow> real" where
  "calculate_long_pnl entry exit q c_mult = (exit - entry) * q * c_mult"

definition calculate_short_pnl :: "real \<Rightarrow> real \<Rightarrow> real \<Rightarrow> real \<Rightarrow> real" where
  "calculate_short_pnl entry exit q c_mult = (entry - exit) * q * c_mult"

text \<open>
  Modelled from the spec: \<open>calculate_available_margin\<close> of \<open>helpers.optimized\<close> is
  not among the sources.  Section 4.1: the balance, minus the required margin of both
  sides (\<open>qty * price * mult / leverage\<close> each), plus the unrealized pnl of both sides
  at the mark price.
\<close>

definition calculate_available_margin ::
  "real \<Rightarrow> real \<Rightarrow> real \<Rightarrow> real \<Rightarrow> real \<Rightarrow> real \<Rightarrow> real \<Rightarrow> real \<Rightarrow> real" where
  "calculate_available_margin bal long_qty long_price short_qty short_price mark c_mult lev =
     bal - (long_qty * long_price * c_mult / lev + short_qty * short_price * c_mult / lev)
       + (calculate_long_pnl long_price mark long_qty c_mult
          + calculate_short_pnl short_price mark short_qty c_mult)"

text \<open>
  Modelled from the spec: \<open>calculate_new_position_size_position_price\<close> of
  \<open>helpers.optimized\<close> is not among the sources.  Section 4.1: a positive delta adds
  to the size at the volume-weighted average price; a delta that reduces the position
  by at most its size keeps the price, and gives price 0 when the new size rounds to 0.
  Reducing by more than the size is left undefined by the spec, which recommends
  clamping to zero; the model does that.
\<close>

definition calculate_new_position_size_position_price ::
  "real \<Rightarrow> real \<Rightarrow> real \<Rightarrow> real \<Rightarrow> real \<Rightarrow> real \<times> real" where
  "calculate_new_position_size_position_price old_qty old_price delta fill_price qty_step =
     (if 0 < delta then
        (old_qty + delta, (old_qty * old_price + delta * fill_price) / (old_qty + delta))
      else if - delta \<le> old_qty then
        (if round_down (old_qty + delta) qty_step = 0 then (old_qty + delta, 0)
         else (old_qty + delta, old_price))
      else (0, 0))"

text \<open>
  \<open>calculate_bankruptcy_price(balance, long_qty, long_price, short_qty, short_price,
  False, 1.0)\<close> is not among the sources and the spec does not determine its value,
  so the step takes it as the parameter \<open>bp\<close>; every theorem below holds for every
  such function.  \<open>zero_bankruptcy_price\<close> is the instance used to evaluate the
  step on concrete inputs.
\<close>

type_synonym bankruptcy = "real \<Rightarrow> real \<Rightarrow> real \<Rightarrow> real \<Rightarrow> real \<Rightarrow> real"

definition zero_bankruptcy_price :: bankruptcy where
  "zero_bankruptcy_price bal long_qty long_price short_qty short_price = 0"

subsection \<open>Order book state (\<open>definitions.order_list\<close>)\<close>

text \<open>
  Modelled from the spec: \<open>OrderList\<close> is not among the sources.  Section 4.2: two
  sequences in insertion order; deletion uses the identity of an order (its id and
  its position side) and is stable for the entries it keeps.
\<close>

definition same_order :: "Order \<Rightarrow> Order \<Rightarrow> bool" where
  "same_order a b \<longleftrightarrow> order_id a = order_id b \<and> position_side a = position_side b"

definition listed :: "Order list \<Rightarrow> Order \<Rightarrow> bool" where
  "listed os x = list_ex (same_order x) os"

definition add_long :: "Order list \<Rightarrow> OrderList \<Rightarrow> OrderList" where
  "add_long os ol = ol\<lparr>long := long ol @ os\<rparr>"

definition add_short :: "Order list \<Rightarrow> OrderList \<Rightarrow> OrderList" where
  "add_short os ol = ol\<lparr>short := short ol @ os\<rparr>"

definition delete_long :: "Order list \<Rightarrow> OrderList \<Rightarrow> OrderList" where
  "delete_long os ol = ol\<lparr>long := filter (\<lambda>x. \<not> listed os x) (long ol)\<rparr>"

definition delete_short :: "Order list \<Rightarrow> OrderList \<Rightarrow> OrderList" where
  "delete_short os ol = ol\<lparr>short := filter (\<lambda>x. \<not> listed os x) (short ol)\<rparr>"

text \<open>The in-place update of the quantity of an open order.\<close>

definition set_qty :: "Order \<Rightarrow> real \<Rightarrow> Order list \<Rightarrow> Order list" where
  "set_qty x q os = map (\<lambda>y. if same_order y x then y\<lparr>qty := q\<rparr> else y) os"

definition set_qty_long :: "Order \<Rightarrow> real \<Rightarrow> OrderList \<Rightarrow> OrderList" where
  "set_qty_long x q ol = ol\<lparr>long := set_qty x q (long ol)\<rparr>"

definition set_qty_short :: "Order \<Rightarrow> real \<Rightarrow> OrderList \<Rightarrow> OrderList" where
  "set_qty_short x q ol = ol\<lparr>short := set_qty x q (short ol)\<rparr>"

subsection \<open>Account state (\<open>bots.base_bot\<close>)\<close>

text \<open>
  Modelled from the spec: the base class \<open>Bot\<close> is not among the sources.  Section
  4.3: \<open>handle_account_update\<close> replaces balance and both positions;
  \<open>handle_order_update\<close> records the transition and forwards it to the order book:
  append on \<open>NEW\<close>, remove on \<open>FILLED\<close>, \<open>CANCELED\<close> and \<open>LIQUIDATION\<close>, in-place
  quantity update on \<open>PARTIALLY_FILLED\<close>, each on the book of the order's position
  side.
\<close>

definition handle_account_update ::
  "BacktestBot \<Rightarrow> real \<Rightarrow> Position \<Rightarrow> Position \<Rightarrow> BacktestBot" where
  "handle_account_update s bal l sh =
     s\<lparr>balance := bal, pos_long := l, pos_short := sh,
       trace := trace s @ [AccountUpdate bal l sh]\<rparr>"

definition forward_order :: "Order \<Rightarrow> OrderList \<Rightarrow> OrderList" where
  "forward_order x ol =
     (case action x of
        NEW \<Rightarrow>
          (case position_side x of
             LONG \<Rightarrow> add_long [x] ol | SHORT \<Rightarrow> add_short [x] ol | OTHER_SIDE \<Rightarrow> ol)
      | PARTIALLY_FILLED \<Rightarrow>
          (case position_side x of
             LONG \<Rightarrow> set_qty_long x (qty x) ol
           | SHORT \<Rightarrow> set_qty_short x (qty x) ol
           | OTHER_SIDE \<Rightarrow> ol)
      | _ \<Rightarrow>
          (case position_side x of
             LONG \<Rightarrow> delete_long [x] ol | SHORT \<Rightarrow> delete_short [x] ol | OTHER_SIDE \<Rightarrow> ol))"

definition handle_order_update :: "BacktestBot \<Rightarrow> Order \<Rightarrow> BacktestBot" where
  "handle_order_update s x =
     s\<lparr>open_orders := forward_order x (open_orders s), trace := trace s @ [OrderUpdate x]\<rparr>"

subsection \<open>The per-candle step: \<open>execute_exchange_logic\<close>\<close>

text \<open>The margin test of lines 109 to 112 and of lines 238 to 244 and 253 to 259.\<close>

definition available_margin :: "BacktestBot \<Rightarrow> Candle \<Rightarrow> real" where
  "available_margin s c =
     calculate_available_margin (balance s) (p_size (pos_long s)) (p_price (pos_long s))
       (p_size (pos_short s)) (p_price (pos_short s)) (c_close c) 1 (leverage s)"

text \<open>Lines 113 to 124: the liquidation of the long side, then of the short side.\<close>

definition liquidation_order :: "BacktestBot \<Rightarrow> Candle \<Rightarrow> real \<Rightarrow> pos_side \<Rightarrow> Order" where
  "liquidation_order s c q ps =
     \<lparr>symbol = bot_symbol s, order_id = 0, price = c_close c, stop_price = c_close c,
      qty = q, otype = CALCULATED, side = SELL, timestamp = current_timestamp s,
      action = LQ, position_side = ps\<rparr>"

definition empty_position :: "BacktestBot \<Rightarrow> pos_side \<Rightarrow> Position" where
  "empty_position s ps =
     \<lparr>p_symbol = bot_symbol s, p_size = 0, p_price = 0, p_liquidation_price = 0,
      p_fifth = 0, p_leverage = leverage s, p_position_side = ps\<rparr>"

definition liquidate_long :: "BacktestBot \<Rightarrow> Candle \<Rightarrow> BacktestBot" where
  "liquidate_long s c =
     (if p_size (pos_long s) \<noteq> 0 then
        (let s1 = handle_order_update s (liquidation_order s c (p_size (pos_long s)) LONG)
         in handle_account_update s1 0 (empty_position s1 LONG) (pos_short s1))
      else s)"

definition liquidate_short :: "BacktestBot \<Rightarrow> Candle \<Rightarrow> BacktestBot" where
  "liquidate_short s c =
     (if p_size (pos_short s) \<noteq> 0 then
        (let s1 = handle_order_update s (liquidation_order s c (p_size (pos_short s)) SHORT)
         in handle_account_update s1 0 (pos_long s1) (empty_position s1 SHORT))
      else s)"

text \<open>
  Lines 130 to 145 and 183 to 198: the flag \<open>execution\<close>, set by three consecutive
  \<open>if\<close> statements, and the price of the working copy of a market order
  (\<open>np.average\<close> of the four prices of the candle, rounded down to the price step).
\<close>

definition long_execution :: "Candle \<Rightarrow> Order \<Rightarrow> bool" where
  "long_execution c order =
     (let execution = False;
          execution = (if otype order = MARKET then True else execution);
          execution =
            (if c_low c < price order then
               (if (otype order = LIMIT \<and> side order = BUY) \<or> otype order = SL then True
                else execution)
             else execution);
          execution =
            (if c_high c > price order then
               (if (otype order = LIMIT \<and> side order = SELL) \<or> otype order = TP then True
                else execution)
             else execution)
      in execution)"

definition short_execution :: "Candle \<Rightarrow> Order \<Rightarrow> bool" where
  "short_execution c order =
     (let execution = False;
          execution = (if otype order = MARKET then True else execution);
          execution =
            (if c_high c > price order then
               (if (otype order = LIMIT \<and> side order = BUY) \<or> otype order = SL then True
                else execution)
             else execution);
          execution =
            (if c_low c < price order then
               (if (otype order = LIMIT \<and> side order = SELL) \<or> otype order = TP then True
                else execution)
             else execution)
      in execution)"

definition average4 :: "Candle \<Rightarrow> real" where
  "average4 c = (c_open c + c_high c + c_low c + c_close c) / 4"

definition working_copy :: "BacktestBot \<Rightarrow> Candle \<Rightarrow> Order \<Rightarrow> Order" where
  "working_copy s c order =
     (if otype order = MARKET then order\<lparr>price := round_down (average4 c) (price_step s)\<rparr>
      else order)"

text \<open>
  Lines 147 to 154 and 200 to 207: a full fill marks the order for removal; a partial
  fill lowers the quantity of the working copy and, in place, of the open order.
\<close>

definition fill_copy :: "Candle \<Rightarrow> Order \<Rightarrow> Order \<Rightarrow> Order" where
  "fill_copy c order x =
     (if c_volume c \<ge> qty order then x\<lparr>action := FILLED\<rparr>
      else x\<lparr>action := PARTIALLY_FILLED, qty := qty x - c_volume c\<rparr>)"

definition fill_qty :: "Candle \<Rightarrow> Order \<Rightarrow> real" where
  "fill_qty c x = (if action x = FILLED then qty x else c_volume c)"

definition fee_paid :: "BacktestBot \<Rightarrow> Order \<Rightarrow> Order \<Rightarrow> real" where
  "fee_paid s order x =
     (if otype order = MARKET then - quantity_to_cost (qty x) (price x) 1 * taker_fee s
      else - quantity_to_cost (qty x) (price x) 1 * maker_fee s)"

text \<open>
  Lines 129 to 177: the body of the loop over the long book.  The state of the loop
  is the bot and the list \<open>orders_to_remove\<close>.
\<close>

definition long_order_step ::
  "bankruptcy \<Rightarrow> Candle \<Rightarrow> BacktestBot \<times> Order list \<Rightarrow> Order \<Rightarrow> BacktestBot \<times> Order list" where
  "long_order_step bp c acc order =
     (let s = fst acc; orders_to_remove = snd acc in
      if long_execution c order then
        (let x = fill_copy c order (working_copy s c order);
             orders_to_remove =
               (if c_volume c \<ge> qty order then orders_to_remove @ [order]
                else orders_to_remove);
             s = (if c_volume c \<ge> qty order then s
                  else s\<lparr>open_orders :=
                         set_qty_long order (qty order - c_volume c) (open_orders s)\<rparr>);
             s = handle_order_update s x;
             p = pos_long s;
             fee = fee_paid s order x;
             pnl = (if side order = SELL
                    then calculate_long_pnl (p_price (pos_long s)) (price x) (fill_qty c x) 1
                    else 0);
             qp = (if side order = SELL
                   then calculate_new_position_size_position_price (p_size p) (p_price p)
                          (- fill_qty c x) (price x) (quantity_step s)
                   else calculate_new_position_size_position_price (p_size p) (p_price p)
                          (fill_qty c x) (price x) (quantity_step s));
             p = p\<lparr>p_size := fst qp, p_price := snd qp\<rparr>;
             p = p\<lparr>p_leverage := leverage s\<rparr>;
             p = p\<lparr>p_position_side := LONG\<rparr>;
             p = p\<lparr>p_liquidation_price :=
                     bp (balance s + fee + pnl) (p_size p) (p_price p)
                       (p_size (pos_short s)) (p_price (pos_short s))\<rparr>
         in (handle_account_update s (balance s + fee + pnl) p (pos_short s),
             orders_to_remove))
      else (s, orders_to_remove))"

text \<open>
  Lines 182 to 231: the body of the loop over the short book.  As in the source, the
  updated position gets the position side \<open>LONG\<close> (line 226).
\<close>

definition short_order_step ::
  "bankruptcy \<Rightarrow> Candle \<Rightarrow> BacktestBot \<times> Order list \<Rightarrow> Order \<Rightarrow> BacktestBot \<times> Order list" where
  "short_order_step bp c acc order =
     (let s = fst acc; orders_to_remove = snd acc in
      if short_execution c order then
        (let x = fill_copy c order (working_copy s c order);
             orders_to_remove =
               (if c_volume c \<ge> qty order then orders_to_remove @ [order]
                else orders_to_remove);
             s = (if c_volume c \<ge> qty order then s
                  else s\<lparr>open_orders :=
                         set_qty_short order (qty order - c_volume c) (open_orders s)\<rparr>);
             s = handle_order_update s x;
             p = pos_short s;
             fee = fee_paid s order x;
             pnl = (if side order = SELL
                    then calculate_short_pnl (p_price (pos_short s)) (price x) (fill_qty c x) 1
                    else 0);
             qp = (if side order = SELL
                   then calculate_new_position_size_position_price (p_size p) (p_price p)
                          (- fill_qty c x) (price x) (quantity_step s)
                   else calculate_new_position_size_position_price (p_size p) (p_price p)
                          (fill_qty c x) (price x) (quantity_step s));
             p = p\<lparr>p_size := fst qp, p_price := snd qp\<rparr>;
             p = p\<lparr>p_leverage := leverage s\<rparr>;
             p = p\<lparr>p_position_side := LONG\<rparr>;
             p = p\<lparr>p_liquidation_price :=
                     bp (balance s + fee + pnl) (p_size (pos_long s)) (p_price (pos_long s))
                       (p_size p) (p_price p)\<rparr>
         in (handle_account_update s (balance s + fee + pnl) (pos_long s) p,
             orders_to_remove))
      else (s, orders_to_remove))"

text \<open>
  Lines 127 to 179 and 180 to 233: each loop runs over the book as it is when the loop
  starts; after either loop the source calls \<open>delete_long\<close> (lines 179 and 233).
\<close>

definition match_long :: "bankruptcy \<Rightarrow> Candle \<Rightarrow> BacktestBot \<Rightarrow> BacktestBot" where
  "match_long bp c s =
     (let r = foldl (long_order_step bp c) (s, []) (long (open_orders s))
      in (fst r)\<lparr>open_orders := delete_long (snd r) (open_orders (fst r))\<rparr>)"

definition match_short :: "bankruptcy \<Rightarrow> Candle \<Rightarrow> BacktestBot \<Rightarrow> BacktestBot" where
  "match_short bp c s =
     (let r = foldl (short_order_step bp c) (s, []) (short (open_orders s))
      in (fst r)\<lparr>open_orders := delete_long (snd r) (open_orders (fst r))\<rparr>)"

text \<open>
  Lines 236 to 263: the admission of the pending orders.  \<open>due\<close> is the test of lines
  237 and 252; the body is the same for both queues.
\<close>

definition due :: "BacktestBot \<Rightarrow> Order \<Rightarrow> bool" where
  "due s order \<longleftrightarrow>
     real_of_int (timestamp order) + latency s \<le> real_of_int (current_timestamp s)"

definition admit_step ::
  "Candle \<Rightarrow> BacktestBot \<times> Order list \<Rightarrow> Order \<Rightarrow> BacktestBot \<times> Order list" where
  "admit_step c acc order =
     (let s = fst acc; orders_to_remove = snd acc in
      if due s order then
        (let s = (if qty order * price order < available_margin s c
                  then handle_order_update s order else s)
         in (s, orders_to_remove @ [order]))
      else (s, orders_to_remove))"

definition admit_long :: "Candle \<Rightarrow> BacktestBot \<Rightarrow> BacktestBot" where
  "admit_long c s =
     (let r = foldl (admit_step c) (s, []) (long (orders_to_execute s))
      in (fst r)\<lparr>orders_to_execute := delete_long (snd r) (orders_to_execute (fst r))\<rparr>)"

definition admit_short :: "Candle \<Rightarrow> BacktestBot \<Rightarrow> BacktestBot" where
  "admit_short c s =
     (let r = foldl (admit_step c) (s, []) (short (orders_to_execute s))
      in (fst r)\<lparr>orders_to_execute := delete_short (snd r) (orders_to_execute (fst r))\<rparr>)"

text \<open>The whole step; the second component is the returned flag.\<close>

definition execute_exchange_logic ::
  "bankruptcy \<Rightarrow> BacktestBot \<Rightarrow> Candle \<Rightarrow> BacktestBot \<times> bool" where
  "execute_exchange_logic bp s last_candle =
     (if available_margin s last_candle \<le> 0 then
        (liquidate_short (liquidate_long s last_candle) last_candle, False)
      else
        (admit_short last_candle
           (admit_long last_candle
              (match_short bp last_candle (match_long bp last_candle s))), True))"

subsection \<open>The entry points \<open>create_orders\<close> and \<open>cancel_orders\<close>\<close>

text \<open>
  Lines 296 to 334.  Both methods stamp each order in place and sort it into one of
  two lists by its position side; the lists are then added to the pending queues.
  The model returns the bot together with the orders as the caller sees them after
  the call.  \<open>add_long\<close> and \<open>add_short\<close> append (section 4.2).
\<close>

definition stamp :: "BacktestBot \<Rightarrow> order_action \<Rightarrow> Order \<Rightarrow> Order" where
  "stamp s a order =
     order\<lparr>symbol := bot_symbol s, timestamp := current_timestamp s, action := a\<rparr>"

fun sort_orders ::
  "BacktestBot \<Rightarrow> order_action \<Rightarrow> Order list \<Rightarrow> Order list \<times> Order list \<Rightarrow> Order list \<times> Order list" where
  "sort_orders s a [] acc = acc"
| "sort_orders s a (order # orders) acc =
     (let order = stamp s a order in
      if position_side order = LONG then sort_orders s a orders (fst acc @ [order], snd acc)
      else if position_side order = SHORT then sort_orders s a orders (fst acc, snd acc @ [order])
      else sort_orders s a orders acc)"

definition submit :: "BacktestBot \<Rightarrow> order_action \<Rightarrow> Order list \<Rightarrow> BacktestBot \<times> Order list" where
  "submit s a orders =
     (let r = sort_orders s a orders ([], [])
      in (s\<lparr>orders_to_execute := add_short (snd r) (add_long (fst r) (orders_to_execute s))\<rparr>,
          map (stamp s a) orders))"

definition create_orders :: "BacktestBot \<Rightarrow> Order list \<Rightarrow> BacktestBot \<times> Order list" where
  "create_orders s orders_to_create = submit s NEW orders_to_create"

definition cancel_orders :: "BacktestBot \<Rightarrow> Order list \<Rightarrow> BacktestBot \<times> Order list" where
  "cancel_orders s orders_to_cancel = submit s CANCELED orders_to_cancel"

subsection \<open>The driver: \<open>start_websocket\<close>\<close>

text \<open>
  Lines 266 to 294.  A row of the data is \<open>[timestamp, open, high, low, close,
  volume]\<close>; the timestamp is stored in the 64-bit integer field
  \<open>current_timestamp\<close>, so the model takes it as an integer.  The strategy is the
  injected collaborator: its \<open>call_interval\<close> and what \<open>decide\<close> does to the bot.
  The loop state holds the local variables \<open>price_list\<close> and \<open>last_update\<close>, the
  list of the invocations of \<open>decide\<close> made so far (the row at which it was invoked
  and the argument it received), and whether the loop has returned early.
\<close>

record Row =
  r_ts :: int
  r_open :: real
  r_high :: real
  r_low :: real
  r_close :: real
  r_volume :: real

record Strategy =
  strategy_call_interval :: real
  strategy_decide :: "BacktestBot \<Rightarrow> Candle list \<Rightarrow> BacktestBot"

record Driver =
  bot :: BacktestBot
  price_list :: "Candle list"
  last_update :: int
  calls :: "(Row \<times> Candle list) list"
  halted :: bool

definition prepare_candle :: "Row \<Rightarrow> Candle" where
  "prepare_candle row =
     \<lparr>c_open = r_open row, c_high = r_high row, c_low = r_low row, c_close = r_close row,
      c_volume = r_volume row\<rparr>"

fun run_candles :: "bankruptcy \<Rightarrow> Strategy \<Rightarrow> Row list \<Rightarrow> Driver \<Rightarrow> Driver" where
  "run_candles bp st [] d = d"
| "run_candles bp st (i # rows) d =
     (let s = (bot d)\<lparr>current_timestamp := r_ts i\<rparr>;
          candle = prepare_candle i;
          r = execute_exchange_logic bp s candle
      in if \<not> snd r then d\<lparr>bot := fst r, halted := True\<rparr>
         else
           (let s = fst r; pl = price_list d @ [candle] in
            if real_of_int (current_timestamp s) - real_of_int (last_update d)
                 \<ge> strategy_call_interval st * 1000
            then run_candles bp st rows
                   (d\<lparr>bot := strategy_decide st s pl, price_list := [],
                      last_update := current_timestamp s, calls := calls d @ [(i, pl)]\<rparr>)
            else run_candles bp st rows (d\<lparr>bot := s, price_list := pl\<rparr>)))"

text \<open>
  \<open>self.data[0, 0]\<close> on line 282 is read before the loop: with no row there is no
  such entry, and the model returns \<open>None\<close>.
\<close>

definition start_websocket ::
  "bankruptcy \<Rightarrow> Strategy \<Rightarrow> Row list \<Rightarrow> BacktestBot \<Rightarrow> Driver option" where
  "start_websocket bp st data s =
     (case data of
        [] \<Rightarrow> None
      | row # _ \<Rightarrow>
          Some (run_candles bp st data
                  \<lparr>bot = s, price_list = [], last_update = r_ts row, calls = [],
                   halted = False\<rparr>))"

subsection \<open>Reading the trace\<close>

text \<open>
  The orders passed to \<open>handle_order_update\<close>, in the order of the calls, and the
  working copy that the body of a matching loop passes for an order that executes.
\<close>

fun order_updates :: "event list \<Rightarrow> Order list" where
  "order_updates [] = []"
| "order_updates (OrderUpdate x # es) = x # order_updates es"
| "order_updates (AccountUpdate b l sh # es) = order_updates es"

definition emitted :: "BacktestBot \<Rightarrow> Candle \<Rightarrow> Order \<Rightarrow> Order" where
  "emitted s c order = fill_copy c order (working_copy s c order)"

subsection \<open>Reading the admission\<close>

text \<open>
  The test that an inspected pending order must pass to be handed to
  \<open>handle_order_update\<close>, the effect of a sequence of such calls on the open book,
  and the entries of a queue that a deletion keeps.  \<open>same_config\<close> and
  \<open>same_account\<close> say that two bots agree on what the admission tests read.
\<close>

definition admitted :: "BacktestBot \<Rightarrow> Candle \<Rightarrow> Order \<Rightarrow> bool" where
  "admitted s c order \<longleftrightarrow> due s order \<and> qty order * price order < available_margin s c"

definition forward_all :: "Order list \<Rightarrow> OrderList \<Rightarrow> OrderList" where
  "forward_all xs ol = foldl (\<lambda>b x. forward_order x b) ol xs"

definition unlisted :: "Order list \<Rightarrow> Order list \<Rightarrow> Order list" where
  "unlisted os xs = filter (\<lambda>x. \<not> listed os x) xs"

definition same_config :: "BacktestBot \<Rightarrow> BacktestBot \<Rightarrow> bool" where
  "same_config s s' \<longleftrightarrow>
     quantity_step s' = quantity_step s \<and> price_step s' = price_step s \<and>
     leverage s' = leverage s \<and> bot_symbol s' = bot_symbol s \<and>
     maker_fee s' = maker_fee s \<and> taker_fee s' = taker_fee s \<and>
     latency s' = latency s \<and> current_timestamp s' = current_timestamp s"

definition same_account :: "BacktestBot \<Rightarrow> BacktestBot \<Rightarrow> bool" where
  "same_account s s' \<longleftrightarrow>
     balance s' = balance s \<and> pos_long s' = pos_long s \<and> pos_short s' = pos_short s"

subsection \<open>Reading the invocations of the strategy\<close>

text \<open>
  \<open>cadence ci lu ks\<close>: every invocation of the list happens at a row whose timestamp
  is at least \<open>ci * 1000\<close> after the previous one (after \<open>lu\<close> for the first), and
  its argument is not empty and ends with the candle of that row.  \<open>last_call\<close> is
  the timestamp of the last invocation, and \<open>driver_inv\<close> the invariant of the loop:
  the arguments of the invocations followed by the buffer are the candles seen.
\<close>

fun cadence :: "real \<Rightarrow> int \<Rightarrow> (Row \<times> Candle list) list \<Rightarrow> bool" where
  "cadence ci lu [] = True"
| "cadence ci lu (k # ks) =
     (ci * 1000 \<le> real_of_int (r_ts (fst k)) - real_of_int lu \<and>
      snd k \<noteq> [] \<and> last (snd k) = prepare_candle (fst k) \<and>
      cadence ci (r_ts (fst k)) ks)"

definition last_call :: "int \<Rightarrow> (Row \<times> Candle list) list \<Rightarrow> int" where
  "last_call lu ks = (if ks = [] then lu else r_ts (fst (last ks)))"

definition driver_inv :: "real \<Rightarrow> int \<Rightarrow> Candle list \<Rightarrow> Driver \<Rightarrow> bool" where
  "driver_inv ci t0 seen d \<longleftrightarrow>
     cadence ci t0 (calls d) \<and> last_update d = last_call t0 (calls d) \<and>
     concat (map snd (calls d)) @ price_list d = seen"

subsection \<open>The identity of an order\<close>

text \<open>The pair that \<open>same_order\<close> compares.\<close>

definition ident :: "Order \<Rightarrow> int \<times> pos_side" where
  "ident x = (order_id x, position_side x)"

subsection \<open>Reading the books after matching\<close>

text \<open>
  What a matching loop is to leave of a book: the orders that execute with a quantity
  within the volume of the candle are gone, the other orders that execute have their
  quantity lowered by the volume, and the orders that do not execute are as they were,
  all in the order of the book.
\<close>

definition after_matching :: "(Candle \<Rightarrow> Order \<Rightarrow> bool) \<Rightarrow> Candle \<Rightarrow> Order list \<Rightarrow> Order list" where
  "after_matching ex c xs =
     map (\<lambda>x. if ex c x then x\<lparr>qty := qty x - c_volume c\<rparr> else x)
       (filter (\<lambda>x. \<not> (ex c x \<and> c_volume c \<ge> qty x)) xs)"

subsection \<open>Concrete inputs\<close>

text \<open>
  The inputs on which the step is evaluated below: a bot with leverage 10, latency
  500 ms, unit price and quantity steps, balance 1000, no position and empty books,
  and the variations of it that the scenarios of section 8 of the spec describe.
\<close>

definition empty_book :: OrderList where
  "empty_book = \<lparr>long = [], short = []\<rparr>"

definition flat :: "pos_side \<Rightarrow> Position" where
  "flat ps =
     \<lparr>p_symbol = ''BTCUSDT'', p_size = 0, p_price = 0, p_liquidation_price = 0,
      p_fifth = 0, p_leverage = 10, p_position_side = ps\<rparr>"

definition base_bot :: BacktestBot where
  "base_bot =
     \<lparr>quantity_step = 1, price_step = 1, call_interval = 1, leverage = 10,
      bot_symbol = ''BTCUSDT'', maker_fee = 1 / 5000, taker_fee = 1 / 2500, latency = 500,
      balance = 1000, pos_long = flat LONG, pos_short = flat SHORT,
      open_orders = empty_book, orders_to_execute = empty_book, current_timestamp = 0,
      trace = []\<rparr>"

text \<open>Scenario 5: long 10 at 100, balance 10, a candle that closes at 80.\<close>

definition liq_bot :: BacktestBot where
  "liq_bot = base_bot\<lparr>balance := 10, pos_long := (flat LONG)\<lparr>p_size := 10, p_price := 100\<rparr>\<rparr>"

definition liq_candle :: Candle where
  "liq_candle = \<lparr>c_open = 100, c_high = 100, c_low = 80, c_close = 80, c_volume = 1\<rparr>"

text \<open>
  An order of the long book and a candle that triggers it: a limit buy at 100 and a
  candle with low 99 and high 101.
\<close>

definition trigger_order :: Order where
  "trigger_order =
     \<lparr>symbol = ''BTCUSDT'', order_id = 1, price = 100, stop_price = 0, qty = 1,
      otype = LIMIT, side = BUY, timestamp = 0, action = NEW, position_side = LONG\<rparr>"

definition trigger_candle :: Candle where
  "trigger_candle = \<lparr>c_open = 100, c_high = 101, c_low = 99, c_close = 100, c_volume = 5\<rparr>"

text \<open>
  Scenario 1: latency 500 ms, an order stamped at 1000 and a second one stamped at
  1400, seen at the candle of 1500.
\<close>

definition latency_order :: Order where
  "latency_order =
     \<lparr>symbol = ''BTCUSDT'', order_id = 3, price = 100, stop_price = 0, qty = 1,
      otype = LIMIT, side = BUY, timestamp = 1000, action = NEW, position_side = LONG\<rparr>"

definition latency_bot :: BacktestBot where
  "latency_bot =
     base_bot\<lparr>current_timestamp := 1500,
       orders_to_execute :=
         \<lparr>long = [latency_order, latency_order\<lparr>order_id := 4, timestamp := 1400\<rparr>],
          short = []\<rparr>\<rparr>"

text \<open>
  Scenario 3: an open limit buy of 10 at 100 on the long book and a candle with low
  99, high 101 and volume 3.
\<close>

definition partial_order :: Order where
  "partial_order = trigger_order\<lparr>qty := 10\<rparr>"

definition partial_bot :: BacktestBot where
  "partial_bot = base_bot\<lparr>open_orders := \<lparr>long = [partial_order], short = []\<rparr>\<rparr>"

definition partial_candle :: Candle where
  "partial_candle = \<lparr>c_open = 100, c_high = 101, c_low = 99, c_close = 100, c_volume = 3\<rparr>"

text \<open>
  Scenario 6: an open market buy on the long book and the candle with open 100, high
  120, low 90 and close 110.
\<close>

definition market_order :: Order where
  "market_order = trigger_order\<lparr>otype := MARKET, price := 0\<rparr>"

definition market_bot :: BacktestBot where
  "market_bot = base_bot\<lparr>open_orders := \<lparr>long = [market_order], short = []\<rparr>\<rparr>"

definition market_candle :: Candle where
  "market_candle = \<lparr>c_open = 100, c_high = 120, c_low = 90, c_close = 110, c_volume = 5\<rparr>"

text \<open>An open limit buy at 100 on the short book and a candle with high 101.\<close>

definition short_order :: Order where
  "short_order =
     \<lparr>symbol = ''BTCUSDT'', order_id = 2, price = 100, stop_price = 0, qty = 1,
      otype = LIMIT, side = BUY, timestamp = 0, action = NEW, position_side = SHORT\<rparr>"

definition short_bot :: BacktestBot where
  "short_bot = base_bot\<lparr>open_orders := \<lparr>long = [], short = [short_order]\<rparr>\<rparr>"

definition short_candle :: Candle where
  "short_candle = \<lparr>c_open = 100, c_high = 101, c_low = 99, c_close = 100, c_volume = 5\<rparr>"

text \<open>
  A long position of 50 at 100 (available margin 500 at a close of 100), an open limit
  buy of 6 at 95 and, pending and due, its cancellation; the candle does not reach 95.
\<close>

definition cancel_target :: Order where
  "cancel_target =
     \<lparr>symbol = ''BTCUSDT'', order_id = 9, price = 95, stop_price = 0, qty = 6,
      otype = LIMIT, side = BUY, timestamp = 0, action = NEW, position_side = LONG\<rparr>"

definition cancel_bot :: BacktestBot where
  "cancel_bot =
     base_bot\<lparr>pos_long := (flat LONG)\<lparr>p_size := 50, p_price := 100\<rparr>,
       open_orders := \<lparr>long = [cancel_target], short = []\<rparr>,
       orders_to_execute :=
         \<lparr>long = [cancel_target\<lparr>timestamp := 400, action := CANCELED\<rparr>], short = []\<rparr>,
       current_timestamp := 1000\<rparr>"

definition cancel_candle :: Candle where
  "cancel_candle = \<lparr>c_open = 100, c_high = 101, c_low = 96, c_close = 100, c_volume = 5\<rparr>"

text \<open>An order whose position side is neither \<open>LONG\<close> nor \<open>SHORT\<close>.\<close>

definition other_order :: Order where
  "other_order = trigger_order\<lparr>position_side := OTHER_SIDE\<rparr>"

text \<open>
  A strategy that is called every second and submits nothing, rows whose candle
  triggers nothing, and a row whose candle closes at 80.
\<close>

definition idle_strategy :: Strategy where
  "idle_strategy = \<lparr>strategy_call_interval = 1, strategy_decide = (\<lambda>b pl. b)\<rparr>"

definition row_at :: "int \<Rightarrow> Row" where
  "row_at t = \<lparr>r_ts = t, r_open = 100, r_high = 101, r_low = 99, r_close = 100, r_volume = 5\<rparr>"

definition liq_row :: Row where
  "liq_row = \<lparr>r_ts = 0, r_open = 100, r_high = 100, r_low = 80, r_close = 80, r_volume = 1\<rparr>"

text \<open>
  A limit buy at 90 on the long book, which the candle does not reach, and the limit
  buy at 100 on the short book, which it fills completely.
\<close>

definition two_sided_bot :: BacktestBot where
  "two_sided_bot =
     base_bot\<lparr>open_orders := \<lparr>long = [trigger_order\<lparr>price := 90\<rparr>], short = [short_order]\<rparr>\<rparr>"

text \<open>
  Books with two orders each, of which the candle with low 99 and high 101 fills the
  first and does not reach the second.
\<close>

definition mixed_bot :: BacktestBot where
  "mixed_bot =
     base_bot\<lparr>open_orders :=
       \<lparr>long = [trigger_order, trigger_order\<lparr>order_id := 5, price := 90\<rparr>],
        short = [short_order, short_order\<lparr>order_id := 6, price := 110\<rparr>]\<rparr>\<rparr>"

text \<open>
  The liquidated account of scenario 5 with the order stamped at 1000 pending, seen at
  1500.
\<close>

definition liq_pending_bot :: BacktestBot where
  "liq_pending_bot =
     liq_bot\<lparr>current_timestamp := 1500,
       orders_to_execute := \<lparr>long = [latency_order], short = []\<rparr>\<rparr>"

section \<open>Properties\<close>

subsection \<open>What the two callbacks change\<close>

lemma handle_order_update_fields [simp]:
  "trace (handle_order_update s x) = trace s @ [OrderUpdate x]"
  "open_orders (handle_order_update s x) = forward_order x (open_orders s)"
  "balance (handle_order_update s x) = balance s"
  "pos_long (handle_order_update s x) = pos_long s"
  "pos_short (handle_order_update s x) = pos_short s"
  "orders_to_execute (handle_order_update s x) = orders_to_execute s"
  "current_timestamp (handle_order_update s x) = current_timestamp s"
  "leverage (handle_order_update s x) = leverage s"
  "bot_symbol (handle_order_update s x) = bot_symbol s"
  "latency (handle_order_update s x) = latency s"
  "quantity_step (handle_order_update s x) = quantity_step s"
  "price_step (handle_order_update s x) = price_step s"
  "maker_fee (handle_order_update s x) = maker_fee s"
  "taker_fee (handle_order_update s x) = taker_fee s"
  by (simp_all add: handle_order_update_def)

lemma handle_account_update_fields [simp]:
  "trace (handle_account_update s b l sh) = trace s @ [AccountUpdate b l sh]"
  "balance (handle_account_update s b l sh) = b"
  "pos_long (handle_account_update s b l sh) = l"
  "pos_short (handle_account_update s b l sh) = sh"
  "open_orders (handle_account_update s b l sh) = open_orders s"
  "orders_to_execute (handle_account_update s b l sh) = orders_to_execute s"
  "current_timestamp (handle_account_update s b l sh) = current_timestamp s"
  "leverage (handle_account_update s b l sh) = leverage s"
  "bot_symbol (handle_account_update s b l sh) = bot_symbol s"
  "latency (handle_account_update s b l sh) = latency s"
  "quantity_step (handle_account_update s b l sh) = quantity_step s"
  "price_step (handle_account_update s b l sh) = price_step s"
  "maker_fee (handle_account_update s b l sh) = maker_fee s"
  "taker_fee (handle_account_update s b l sh) = taker_fee s"
  by (simp_all add: handle_account_update_def)

subsection \<open>Orders with the same identity\<close>

lemma same_order_ident: "same_order a b \<longleftrightarrow> ident a = ident b"
  by (auto simp: same_order_def ident_def)

lemma listed_ident: "listed os x \<longleftrightarrow> ident x \<in> ident ` set os"
  by (auto simp: listed_def list_ex_iff same_order_ident)

lemma ident_emitted [simp]: "ident (emitted s c order) = ident order"
  by (simp add: ident_def emitted_def fill_copy_def working_copy_def)

lemma emitted_side [simp]: "position_side (emitted s c order) = position_side order"
  by (simp add: emitted_def fill_copy_def working_copy_def)

lemma emitted_action:
  "action (emitted s c order) = (if c_volume c \<ge> qty order then FILLED else PARTIALLY_FILLED)"
  by (simp add: emitted_def fill_copy_def)

lemma ident_set_qty [simp]: "ident ` set (set_qty x q os) = ident ` set os"
  by (induction os) (auto simp: set_qty_def ident_def)

lemma delete_long_other_side:
  assumes "\<forall>y \<in> set (long ol). position_side y = LONG"
    and "\<forall>z \<in> set os. position_side z = SHORT"
  shows "delete_long os ol = ol"
proof -
  have "\<forall>y \<in> set (long ol). \<not> listed os y"
    using assms by (auto simp: listed_def list_ex_iff same_order_def)
  then have "filter (\<lambda>y. \<not> listed os y) (long ol) = long ol"
    by (simp add: filter_id_conv)
  then show ?thesis
    by (simp add: delete_long_def)
qed

subsection \<open>Liquidation\<close>

text \<open>
  Claim C1.  When the available margin at the close of the candle is at most 0, the
  step returns \<open>False\<close>, and what it emits is, for the long side and then for the
  short side, provided the size of that side is not 0: one order update with type
  \<open>CALCULATED\<close>, action \<open>LQ\<close>, side \<open>SELL\<close>, price the close of the candle and
  quantity the size of that side, followed by one account update with balance 0 and
  that side replaced by an empty position.  Nothing else is emitted, and afterwards
  every side that was not empty is empty and the balance is 0.
\<close>

theorem liquidation_halts:
  assumes "available_margin s c \<le> 0"
  shows "snd (execute_exchange_logic bp s c) = False \<and>
    trace (fst (execute_exchange_logic bp s c)) =
      trace s
      @ (if p_size (pos_long s) \<noteq> 0 then
           [OrderUpdate \<lparr>symbol = bot_symbol s, order_id = 0, price = c_close c,
              stop_price = c_close c, qty = p_size (pos_long s), otype = CALCULATED,
              side = SELL, timestamp = current_timestamp s, action = LQ,
              position_side = LONG\<rparr>,
            AccountUpdate 0
              \<lparr>p_symbol = bot_symbol s, p_size = 0, p_price = 0, p_liquidation_price = 0,
               p_fifth = 0, p_leverage = leverage s, p_position_side = LONG\<rparr>
              (pos_short s)]
         else [])
      @ (if p_size (pos_short s) \<noteq> 0 then
           [OrderUpdate \<lparr>symbol = bot_symbol s, order_id = 0, price = c_close c,
              stop_price = c_close c, qty = p_size (pos_short s), otype = CALCULATED,
              side = SELL, timestamp = current_timestamp s, action = LQ,
              position_side = SHORT\<rparr>,
            AccountUpdate 0
              (if p_size (pos_long s) \<noteq> 0 then
                 \<lparr>p_symbol = bot_symbol s, p_size = 0, p_price = 0, p_liquidation_price = 0,
                  p_fifth = 0, p_leverage = leverage s, p_position_side = LONG\<rparr>
               else pos_long s)
              \<lparr>p_symbol = bot_symbol s, p_size = 0, p_price = 0, p_liquidation_price = 0,
               p_fifth = 0, p_leverage = leverage s, p_position_side = SHORT\<rparr>]
         else []) \<and>
    pos_long (fst (execute_exchange_logic bp s c)) =
      (if p_size (pos_long s) \<noteq> 0 then
         \<lparr>p_symbol = bot_symbol s, p_size = 0, p_price = 0, p_liquidation_price = 0,
          p_fifth = 0, p_leverage = leverage s, p_position_side = LONG\<rparr>
       else pos_long s) \<and>
    pos_short (fst (execute_exchange_logic bp s c)) =
      (if p_size (pos_short s) \<noteq> 0 then
         \<lparr>p_symbol = bot_symbol s, p_size = 0, p_price = 0, p_liquidation_price = 0,
          p_fifth = 0, p_leverage = leverage s, p_position_side = SHORT\<rparr>
       else pos_short s) \<and>
    balance (fst (execute_exchange_logic bp s c)) =
      (if p_size (pos_long s) \<noteq> 0 \<or> p_size (pos_short s) \<noteq> 0 then 0 else balance s)"
  using assms
  by (simp add: execute_exchange_logic_def liquidate_long_def liquidate_short_def
      liquidation_order_def empty_position_def Let_def)

lemma liq_margin: "available_margin liq_bot liq_candle = - 290"
  by (simp add: available_margin_def calculate_available_margin_def calculate_long_pnl_def
      calculate_short_pnl_def liq_bot_def liq_candle_def base_bot_def flat_def)

theorem liquidation_halts_witness:
  "available_margin liq_bot liq_candle \<le> 0 \<and>
   snd (execute_exchange_logic zero_bankruptcy_price liq_bot liq_candle) = False \<and>
   trace (fst (execute_exchange_logic zero_bankruptcy_price liq_bot liq_candle)) =
     [OrderUpdate \<lparr>symbol = ''BTCUSDT'', order_id = 0, price = 80, stop_price = 80, qty = 10,
        otype = CALCULATED, side = SELL, timestamp = 0, action = LQ, position_side = LONG\<rparr>,
      AccountUpdate 0 (flat LONG) (flat SHORT)] \<and>
   balance (fst (execute_exchange_logic zero_bankruptcy_price liq_bot liq_candle)) = 0 \<and>
   pos_long (fst (execute_exchange_logic zero_bankruptcy_price liq_bot liq_candle)) = flat LONG"
proof -
  have m: "available_margin liq_bot liq_candle \<le> 0"
    by (simp add: liq_margin)
  show ?thesis
    using m liquidation_halts [OF m, of zero_bankruptcy_price]
    by (simp add: liq_bot_def liq_candle_def base_bot_def flat_def)
qed

subsection \<open>The matching loops\<close>

lemma order_updates_append [simp]:
  "order_updates (es @ fs) = order_updates es @ order_updates fs"
  by (induction es rule: order_updates.induct) simp_all

lemma long_execution_iff:
  "long_execution c order \<longleftrightarrow>
     otype order = MARKET \<or>
     (c_low c < price order \<and> (otype order = LIMIT \<and> side order = BUY \<or> otype order = SL)) \<or>
     (c_high c > price order \<and> (otype order = LIMIT \<and> side order = SELL \<or> otype order = TP))"
  by (auto simp: long_execution_def Let_def)

lemma short_execution_iff:
  "short_execution c order \<longleftrightarrow>
     otype order = MARKET \<or>
     (c_high c > price order \<and> (otype order = LIMIT \<and> side order = BUY \<or> otype order = SL)) \<or>
     (c_low c < price order \<and> (otype order = LIMIT \<and> side order = SELL \<or> otype order = TP))"
  by (auto simp: short_execution_def Let_def)

lemma long_order_step_trace:
  "long_execution c order \<Longrightarrow>
   \<exists>b l sh. trace (fst (long_order_step bp c (s, r) order)) =
     trace s @ [OrderUpdate (emitted s c order), AccountUpdate b l sh]"
  by (simp add: long_order_step_def Let_def emitted_def)

lemma short_order_step_trace:
  "short_execution c order \<Longrightarrow>
   \<exists>b l sh. trace (fst (short_order_step bp c (s, r) order)) =
     trace s @ [OrderUpdate (emitted s c order), AccountUpdate b l sh]"
  by (simp add: short_order_step_def Let_def emitted_def)

lemma long_order_step_config [simp]:
  "price_step (fst (long_order_step bp c (s, r) order)) = price_step s"
  "leverage (fst (long_order_step bp c (s, r) order)) = leverage s"
  "latency (fst (long_order_step bp c (s, r) order)) = latency s"
  "current_timestamp (fst (long_order_step bp c (s, r) order)) = current_timestamp s"
  "orders_to_execute (fst (long_order_step bp c (s, r) order)) = orders_to_execute s"
  by (simp_all add: long_order_step_def Let_def)

lemma short_order_step_config [simp]:
  "price_step (fst (short_order_step bp c (s, r) order)) = price_step s"
  "leverage (fst (short_order_step bp c (s, r) order)) = leverage s"
  "latency (fst (short_order_step bp c (s, r) order)) = latency s"
  "current_timestamp (fst (short_order_step bp c (s, r) order)) = current_timestamp s"
  "orders_to_execute (fst (short_order_step bp c (s, r) order)) = orders_to_execute s"
  by (simp_all add: short_order_step_def Let_def)

lemma long_order_step_updates:
  "order_updates (trace (fst (long_order_step bp c (s, r) order))) =
     order_updates (trace s) @ (if long_execution c order then [emitted s c order] else [])"
  by (simp add: long_order_step_def Let_def emitted_def)

lemma short_order_step_updates:
  "order_updates (trace (fst (short_order_step bp c (s, r) order))) =
     order_updates (trace s) @ (if short_execution c order then [emitted s c order] else [])"
  by (simp add: short_order_step_def Let_def emitted_def)

lemma emitted_cong: "price_step s' = price_step s \<Longrightarrow> emitted s' c = emitted s c"
  by (rule ext) (simp add: emitted_def working_copy_def)

lemma long_loop_updates:
  "order_updates (trace (fst (foldl (long_order_step bp c) (s, r) xs))) =
     order_updates (trace s) @ map (emitted s c) (filter (long_execution c) xs) \<and>
   price_step (fst (foldl (long_order_step bp c) (s, r) xs)) = price_step s"
proof (induction xs arbitrary: s r)
  case Nil
  show ?case by simp
next
  case (Cons x xs)
  obtain s' r' where st: "long_order_step bp c (s, r) x = (s', r')"
    by (cases "long_order_step bp c (s, r) x")
  have ps: "price_step s' = price_step s"
    using long_order_step_config(1) [of bp c s r x] st by simp
  have up: "order_updates (trace s') =
      order_updates (trace s) @ (if long_execution c x then [emitted s c x] else [])"
    using long_order_step_updates [of bp c s r x] st by simp
  show ?case
    using Cons.IH [of s' r'] st ps up emitted_cong [OF ps, of c] by simp
qed

lemma short_loop_updates:
  "order_updates (trace (fst (foldl (short_order_step bp c) (s, r) xs))) =
     order_updates (trace s) @ map (emitted s c) (filter (short_execution c) xs) \<and>
   price_step (fst (foldl (short_order_step bp c) (s, r) xs)) = price_step s"
proof (induction xs arbitrary: s r)
  case Nil
  show ?case by simp
next
  case (Cons x xs)
  obtain s' r' where st: "short_order_step bp c (s, r) x = (s', r')"
    by (cases "short_order_step bp c (s, r) x")
  have ps: "price_step s' = price_step s"
    using short_order_step_config(1) [of bp c s r x] st by simp
  have up: "order_updates (trace s') =
      order_updates (trace s) @ (if short_execution c x then [emitted s c x] else [])"
    using short_order_step_updates [of bp c s r x] st by simp
  show ?case
    using Cons.IH [of s' r'] st ps up emitted_cong [OF ps, of c] by simp
qed

lemma match_long_updates:
  "order_updates (trace (match_long bp c s)) =
     order_updates (trace s)
     @ map (emitted s c) (filter (long_execution c) (long (open_orders s)))"
  using long_loop_updates [of bp c s "[]" "long (open_orders s)"]
  by (simp add: match_long_def Let_def)

lemma match_short_updates:
  "order_updates (trace (match_short bp c s)) =
     order_updates (trace s)
     @ map (emitted s c) (filter (short_execution c) (short (open_orders s)))"
  using short_loop_updates [of bp c s "[]" "short (open_orders s)"]
  by (simp add: match_short_def Let_def)

subsection \<open>The books after matching\<close>

lemma set_qty_absent: "ident x \<notin> ident ` set os \<Longrightarrow> set_qty x q os = os"
  by (induction os) (auto simp: set_qty_def same_order_ident)

lemma set_qty_here:
  assumes "ident x = ident y" and "ident y \<notin> ident ` set pre" and "ident y \<notin> ident ` set post"
  shows "set_qty x q (pre @ y # post) = pre @ y\<lparr>qty := q\<rparr> # post"
proof -
  have "set_qty x q pre = pre" "set_qty x q post = post"
    using assms by (simp_all add: set_qty_absent)
  then show ?thesis
    using assms(1) by (simp add: set_qty_def same_order_ident)
qed

lemma unlisted_absent: "ident x \<notin> ident ` set os \<Longrightarrow> filter (\<lambda>y. \<not> listed [x] y) os = os"
  by (induction os) (auto simp: listed_ident)

lemma unlisted_here:
  assumes "ident x = ident y" and "ident y \<notin> ident ` set pre" and "ident y \<notin> ident ` set post"
  shows "filter (\<lambda>z. \<not> listed [x] z) (pre @ y # post) = pre @ post"
  using assms by (simp add: unlisted_absent) (simp add: listed_ident)

lemma ident_qty [simp]: "ident (x\<lparr>qty := q\<rparr>) = ident x"
  by (simp add: ident_def)

lemma emitted_qty:
  "qty (emitted s c order) = (if c_volume c \<ge> qty order then qty order else qty order - c_volume c)"
  by (simp add: emitted_def fill_copy_def working_copy_def)

lemma long_order_step_book:
  assumes "long (open_orders s) = pre @ order # post"
    and "ident order \<notin> ident ` set pre" and "ident order \<notin> ident ` set post"
    and "position_side order = LONG"
  shows "long (open_orders (fst (long_order_step bp c (s, r) order))) =
      pre @ after_matching long_execution c [order] @ post \<and>
    short (open_orders (fst (long_order_step bp c (s, r) order))) = short (open_orders s) \<and>
    snd (long_order_step bp c (s, r) order) =
      r @ filter (\<lambda>x. long_execution c x \<and> c_volume c \<ge> qty x) [order]"
proof (cases "long_execution c order")
  case False
  then show ?thesis
    using assms(1) by (simp add: long_order_step_def after_matching_def)
next
  case True
  show ?thesis
  proof (cases "c_volume c \<ge> qty order")
    case filled: True
    have "open_orders (fst (long_order_step bp c (s, r) order)) =
        delete_long [emitted s c order] (open_orders s)"
      using True filled assms(4)
      by (simp add: long_order_step_def Let_def emitted_def [symmetric] forward_order_def
          emitted_action)
    moreover have "snd (long_order_step bp c (s, r) order) = r @ [order]"
      using True filled by (simp add: long_order_step_def Let_def)
    ultimately show ?thesis
      using True filled assms(1)
        unlisted_here [of "emitted s c order" order pre post, OF _ assms(2,3)]
      by (simp add: delete_long_def after_matching_def)
  next
    case partial: False
    have "open_orders (fst (long_order_step bp c (s, r) order)) =
        set_qty_long (emitted s c order) (qty (emitted s c order))
          (set_qty_long order (qty order - c_volume c) (open_orders s))"
      using True partial assms(4)
      by (simp add: long_order_step_def Let_def emitted_def [symmetric] forward_order_def
          emitted_action)
    moreover have "snd (long_order_step bp c (s, r) order) = r"
      using True partial by (simp add: long_order_step_def Let_def)
    moreover have "set_qty order (qty order - c_volume c) (pre @ order # post) =
        pre @ order\<lparr>qty := qty order - c_volume c\<rparr> # post"
      using assms(2,3) by (simp add: set_qty_here)
    moreover have "set_qty (emitted s c order) (qty order - c_volume c)
          (pre @ order\<lparr>qty := qty order - c_volume c\<rparr> # post) =
        pre @ order\<lparr>qty := qty order - c_volume c\<rparr> # post"
      using assms(2,3)
        set_qty_here [of "emitted s c order" "order\<lparr>qty := qty order - c_volume c\<rparr>" pre post
          "qty order - c_volume c"]
      by simp
    ultimately show ?thesis
      using True partial assms(1)
      by (simp add: set_qty_long_def after_matching_def emitted_qty)
  qed
qed

lemma after_matching_append:
  "after_matching ex c (xs @ ys) = after_matching ex c xs @ after_matching ex c ys"
  by (simp add: after_matching_def)

lemma after_matching_ident:
  "z \<in> set (after_matching ex c xs) \<Longrightarrow>
   \<exists>y \<in> set xs. ident z = ident y \<and> \<not> (ex c y \<and> c_volume c \<ge> qty y)"
  by (auto simp: after_matching_def)

lemma after_matching_idents: "ident ` set (after_matching ex c xs) \<subseteq> ident ` set xs"
  using after_matching_ident by fastforce

lemma after_matching_keeps:
  "\<forall>x \<in> set xs. \<not> ex c x \<longrightarrow> x \<in> set (after_matching ex c xs)"
  by (auto simp: after_matching_def image_iff)

lemma after_matching_unlisted:
  assumes "distinct (map ident xs)"
  shows "filter (\<lambda>z. \<not> listed (filter (\<lambda>x. ex c x \<and> c_volume c \<ge> qty x) xs) z)
           (after_matching ex c xs) = after_matching ex c xs"
proof -
  have inj: "inj_on ident (set xs)"
    using assms by (simp add: distinct_map)
  have "\<forall>z \<in> set (after_matching ex c xs).
      \<not> listed (filter (\<lambda>x. ex c x \<and> c_volume c \<ge> qty x) xs) z"
  proof
    fix z
    assume "z \<in> set (after_matching ex c xs)"
    then obtain y where y: "y \<in> set xs" "ident z = ident y" "\<not> (ex c y \<and> c_volume c \<ge> qty y)"
      using after_matching_ident by blast
    show "\<not> listed (filter (\<lambda>x. ex c x \<and> c_volume c \<ge> qty x) xs) z"
    proof
      assume "listed (filter (\<lambda>x. ex c x \<and> c_volume c \<ge> qty x) xs) z"
      then obtain x where x: "x \<in> set xs" "ex c x \<and> c_volume c \<ge> qty x" "ident z = ident x"
        by (auto simp: listed_ident)
      have "x = y"
        using inj x(1,3) y(1,2) by (auto dest: inj_onD)
      then show False using x(2) y(3) by simp
    qed
  qed
  then show ?thesis by (simp add: filter_id_conv)
qed

lemma disjoint_step:
  "A \<subseteq> {a} \<Longrightarrow> a \<notin> B \<Longrightarrow> P \<inter> B' = {} \<Longrightarrow> B \<subseteq> B' \<Longrightarrow> (P \<union> A) \<inter> B = {}"
  by blast

lemma long_loop_book:
  assumes "long (open_orders s) = pre @ xs" and "distinct (map ident xs)"
    and "ident ` set pre \<inter> ident ` set xs = {}"
    and "\<forall>x \<in> set xs. position_side x = LONG"
  shows "long (open_orders (fst (foldl (long_order_step bp c) (s, r) xs))) =
      pre @ after_matching long_execution c xs \<and>
    short (open_orders (fst (foldl (long_order_step bp c) (s, r) xs))) = short (open_orders s) \<and>
    snd (foldl (long_order_step bp c) (s, r) xs) =
      r @ filter (\<lambda>x. long_execution c x \<and> c_volume c \<ge> qty x) xs"
  using assms
proof (induction xs arbitrary: pre s r)
  case Nil
  then show ?case by (simp add: after_matching_def)
next
  case (Cons x xs)
  obtain s' r' where st: "long_order_step bp c (s, r) x = (s', r')"
    by (cases "long_order_step bp c (s, r) x")
  have ip: "ident x \<notin> ident ` set pre" and ix: "ident x \<notin> ident ` set xs"
    and sx: "position_side x = LONG"
    using Cons.prems by auto
  have one: "long (open_orders s') = pre @ after_matching long_execution c [x] @ xs"
    "short (open_orders s') = short (open_orders s)"
    "r' = r @ filter (\<lambda>x. long_execution c x \<and> c_volume c \<ge> qty x) [x]"
    using long_order_step_book [OF Cons.prems(1) ip ix sx, of bp c r] st by simp_all
  let ?pre = "pre @ after_matching long_execution c [x]"
  have b1: "long (open_orders s') = ?pre @ xs"
    using one(1) by simp
  have b2: "distinct (map ident xs)"
    using Cons.prems(2) by simp
  have sub: "ident ` set (after_matching long_execution c [x]) \<subseteq> {ident x}"
    using after_matching_idents [of long_execution c "[x]"] by simp
  have inc: "ident ` set xs \<subseteq> ident ` set (x # xs)"
    by (rule image_mono) (simp add: subset_insertI)
  have b3: "ident ` set ?pre \<inter> ident ` set xs = {}"
    unfolding set_append image_Un
    by (rule disjoint_step [OF sub ix Cons.prems(3) inc])
  have b4: "\<forall>y \<in> set xs. position_side y = LONG"
    using Cons.prems(4) by simp
  have ih: "long (open_orders (fst (foldl (long_order_step bp c) (s', r') xs))) =
      ?pre @ after_matching long_execution c xs"
    "short (open_orders (fst (foldl (long_order_step bp c) (s', r') xs))) = short (open_orders s')"
    "snd (foldl (long_order_step bp c) (s', r') xs) =
      r' @ filter (\<lambda>x. long_execution c x \<and> c_volume c \<ge> qty x) xs"
    using Cons.IH [OF b1 b2 b3 b4, of r'] by simp_all
  have f: "foldl (long_order_step bp c) (s, r) (x # xs) = foldl (long_order_step bp c) (s', r') xs"
    by (simp add: st)
  have am: "after_matching long_execution c (x # xs) =
      after_matching long_execution c [x] @ after_matching long_execution c xs"
    using after_matching_append [of long_execution c "[x]" xs] by simp
  show ?case
    unfolding f using ih one(2,3) by (simp add: am)
qed

lemma match_long_book:
  assumes "distinct (map ident (long (open_orders s)))"
    and "\<forall>x \<in> set (long (open_orders s)). position_side x = LONG"
  shows "long (open_orders (match_long bp c s)) =
      after_matching long_execution c (long (open_orders s)) \<and>
    short (open_orders (match_long bp c s)) = short (open_orders s)"
proof -
  let ?xs = "long (open_orders s)"
  let ?r = "foldl (long_order_step bp c) (s, []) ?xs"
  have l: "long (open_orders (fst ?r)) = after_matching long_execution c ?xs"
    "short (open_orders (fst ?r)) = short (open_orders s)"
    "snd ?r = filter (\<lambda>x. long_execution c x \<and> c_volume c \<ge> qty x) ?xs"
    using long_loop_book [of s "[]" ?xs, OF _ assms(1) _ assms(2), of bp c "[]"] by simp_all
  show ?thesis
    using l after_matching_unlisted [OF assms(1), of long_execution c]
    by (simp add: match_long_def Let_def delete_long_def)
qed

lemma short_order_step_book:
  assumes "short (open_orders s) = pre @ order # post"
    and "ident order \<notin> ident ` set pre" and "ident order \<notin> ident ` set post"
    and "position_side order = SHORT"
  shows "short (open_orders (fst (short_order_step bp c (s, r) order))) =
      pre @ after_matching short_execution c [order] @ post \<and>
    long (open_orders (fst (short_order_step bp c (s, r) order))) = long (open_orders s) \<and>
    snd (short_order_step bp c (s, r) order) =
      r @ filter (\<lambda>x. short_execution c x \<and> c_volume c \<ge> qty x) [order]"
proof (cases "short_execution c order")
  case False
  then show ?thesis
    using assms(1) by (simp add: short_order_step_def after_matching_def)
next
  case True
  show ?thesis
  proof (cases "c_volume c \<ge> qty order")
    case filled: True
    have "open_orders (fst (short_order_step bp c (s, r) order)) =
        delete_short [emitted s c order] (open_orders s)"
      using True filled assms(4)
      by (simp add: short_order_step_def Let_def emitted_def [symmetric] forward_order_def
          emitted_action)
    moreover have "snd (short_order_step bp c (s, r) order) = r @ [order]"
      using True filled by (simp add: short_order_step_def Let_def)
    ultimately show ?thesis
      using True filled assms(1)
        unlisted_here [of "emitted s c order" order pre post, OF _ assms(2,3)]
      by (simp add: delete_short_def after_matching_def)
  next
    case partial: False
    have "open_orders (fst (short_order_step bp c (s, r) order)) =
        set_qty_short (emitted s c order) (qty (emitted s c order))
          (set_qty_short order (qty order - c_volume c) (open_orders s))"
      using True partial assms(4)
      by (simp add: short_order_step_def Let_def emitted_def [symmetric] forward_order_def
          emitted_action)
    moreover have "snd (short_order_step bp c (s, r) order) = r"
      using True partial by (simp add: short_order_step_def Let_def)
    moreover have "set_qty order (qty order - c_volume c) (pre @ order # post) =
        pre @ order\<lparr>qty := qty order - c_volume c\<rparr> # post"
      using assms(2,3) by (simp add: set_qty_here)
    moreover have "set_qty (emitted s c order) (qty order - c_volume c)
          (pre @ order\<lparr>qty := qty order - c_volume c\<rparr> # post) =
        pre @ order\<lparr>qty := qty order - c_volume c\<rparr> # post"
      using assms(2,3)
        set_qty_here [of "emitted s c order" "order\<lparr>qty := qty order - c_volume c\<rparr>" pre post
          "qty order - c_volume c"]
      by simp
    ultimately show ?thesis
      using True partial assms(1)
      by (simp add: set_qty_short_def after_matching_def emitted_qty)
  qed
qed

lemma short_loop_book:
  assumes "short (open_orders s) = pre @ xs" and "distinct (map ident xs)"
    and "ident ` set pre \<inter> ident ` set xs = {}"
    and "\<forall>x \<in> set xs. position_side x = SHORT"
  shows "short (open_orders (fst (foldl (short_order_step bp c) (s, r) xs))) =
      pre @ after_matching short_execution c xs \<and>
    long (open_orders (fst (foldl (short_order_step bp c) (s, r) xs))) = long (open_orders s) \<and>
    snd (foldl (short_order_step bp c) (s, r) xs) =
      r @ filter (\<lambda>x. short_execution c x \<and> c_volume c \<ge> qty x) xs"
  using assms
proof (induction xs arbitrary: pre s r)
  case Nil
  then show ?case by (simp add: after_matching_def)
next
  case (Cons x xs)
  obtain s' r' where st: "short_order_step bp c (s, r) x = (s', r')"
    by (cases "short_order_step bp c (s, r) x")
  have ip: "ident x \<notin> ident ` set pre" and ix: "ident x \<notin> ident ` set xs"
    and sx: "position_side x = SHORT"
    using Cons.prems by auto
  have one: "short (open_orders s') = pre @ after_matching short_execution c [x] @ xs"
    "long (open_orders s') = long (open_orders s)"
    "r' = r @ filter (\<lambda>x. short_execution c x \<and> c_volume c \<ge> qty x) [x]"
    using short_order_step_book [OF Cons.prems(1) ip ix sx, of bp c r] st by simp_all
  let ?pre = "pre @ after_matching short_execution c [x]"
  have b1: "short (open_orders s') = ?pre @ xs"
    using one(1) by simp
  have b2: "distinct (map ident xs)"
    using Cons.prems(2) by simp
  have sub: "ident ` set (after_matching short_execution c [x]) \<subseteq> {ident x}"
    using after_matching_idents [of short_execution c "[x]"] by simp
  have inc: "ident ` set xs \<subseteq> ident ` set (x # xs)"
    by (rule image_mono) (simp add: subset_insertI)
  have b3: "ident ` set ?pre \<inter> ident ` set xs = {}"
    unfolding set_append image_Un
    by (rule disjoint_step [OF sub ix Cons.prems(3) inc])
  have b4: "\<forall>y \<in> set xs. position_side y = SHORT"
    using Cons.prems(4) by simp
  have ih: "short (open_orders (fst (foldl (short_order_step bp c) (s', r') xs))) =
      ?pre @ after_matching short_execution c xs"
    "long (open_orders (fst (foldl (short_order_step bp c) (s', r') xs))) = long (open_orders s')"
    "snd (foldl (short_order_step bp c) (s', r') xs) =
      r' @ filter (\<lambda>x. short_execution c x \<and> c_volume c \<ge> qty x) xs"
    using Cons.IH [OF b1 b2 b3 b4, of r'] by simp_all
  have f: "foldl (short_order_step bp c) (s, r) (x # xs) = foldl (short_order_step bp c) (s', r') xs"
    by (simp add: st)
  have am: "after_matching short_execution c (x # xs) =
      after_matching short_execution c [x] @ after_matching short_execution c xs"
    using after_matching_append [of short_execution c "[x]" xs] by simp
  show ?case
    unfolding f using ih one(2,3) by (simp add: am)
qed

lemma match_short_book:
  assumes "distinct (map ident (short (open_orders s)))"
    and "\<forall>x \<in> set (short (open_orders s)). position_side x = SHORT"
    and "\<forall>x \<in> set (long (open_orders s)). position_side x = LONG"
  shows "short (open_orders (match_short bp c s)) =
      after_matching short_execution c (short (open_orders s)) \<and>
    long (open_orders (match_short bp c s)) = long (open_orders s)"
proof -
  let ?xs = "short (open_orders s)"
  let ?r = "foldl (short_order_step bp c) (s, []) ?xs"
  have l: "short (open_orders (fst ?r)) = after_matching short_execution c ?xs"
    "long (open_orders (fst ?r)) = long (open_orders s)"
    "snd ?r = filter (\<lambda>x. short_execution c x \<and> c_volume c \<ge> qty x) ?xs"
    using short_loop_book [of s "[]" ?xs, OF _ assms(1) _ assms(2), of bp c "[]"] by simp_all
  have rem: "\<forall>z \<in> set (snd ?r). position_side z = SHORT"
    using assms(2) by (simp add: l(3))
  have lg: "\<forall>y \<in> set (long (open_orders (fst ?r))). position_side y = LONG"
    using assms(3) by (simp add: l(2))
  have del: "delete_long (snd ?r) (open_orders (fst ?r)) = open_orders (fst ?r)"
    using lg rem by (rule delete_long_other_side)
  have books: "open_orders (match_short bp c s) = open_orders (fst ?r)"
    using del by (simp add: match_short_def Let_def)
  show ?thesis
    using l(1,2) by (simp only: books)
qed

text \<open>
  Claim C2.  The flag \<open>execution\<close> of the loop over the long book is set for every
  market order, for a limit buy or stop loss exactly when the low of the candle is
  below the price of the order, and for a limit sell or take profit exactly when the
  high of the candle is above it; in the loop over the short book the two comparisons
  are exchanged.  An order whose flag is set is executed: the body emits the order
  update of its working copy and an account update.  For an order whose flag is not
  set the body changes nothing, neither the bot nor the removal list.  Over a whole
  book, the order updates of a matching loop are those of the orders of the book whose
  flag is set, in the order of the book.  And on a book whose orders have pairwise
  distinct identities and the position side of the book (for the short book, with a
  long book of \<open>LONG\<close> orders, which the call of line 233 is given), the book after
  the loop and the deletion that follows it is the book before it without the orders
  that were filled completely, with the quantity of the partially filled ones lowered
  by the volume of the candle, and with every order whose flag is not set unchanged
  and in its place; the other book is not touched.
\<close>

theorem execution_trigger:
  "(otype order = MARKET \<longrightarrow> long_execution c order \<and> short_execution c order) \<and>
   ((otype order = LIMIT \<and> side order = BUY \<or> otype order = SL) \<longrightarrow>
      (long_execution c order \<longleftrightarrow> c_low c < price order) \<and>
      (short_execution c order \<longleftrightarrow> c_high c > price order)) \<and>
   ((otype order = LIMIT \<and> side order = SELL \<or> otype order = TP) \<longrightarrow>
      (long_execution c order \<longleftrightarrow> c_high c > price order) \<and>
      (short_execution c order \<longleftrightarrow> c_low c < price order)) \<and>
   (long_execution c order \<longrightarrow>
      (\<exists>b l sh. trace (fst (long_order_step bp c (s, r) order)) =
         trace s @ [OrderUpdate (fill_copy c order (working_copy s c order)),
                    AccountUpdate b l sh])) \<and>
   (short_execution c order \<longrightarrow>
      (\<exists>b l sh. trace (fst (short_order_step bp c (s, r) order)) =
         trace s @ [OrderUpdate (fill_copy c order (working_copy s c order)),
                    AccountUpdate b l sh])) \<and>
   (\<not> long_execution c order \<longrightarrow> long_order_step bp c (s, r) order = (s, r)) \<and>
   (\<not> short_execution c order \<longrightarrow> short_order_step bp c (s, r) order = (s, r)) \<and>
   order_updates (trace (match_long bp c s)) =
     order_updates (trace s)
     @ map (emitted s c) (filter (long_execution c) (long (open_orders s))) \<and>
   order_updates (trace (match_short bp c s)) =
     order_updates (trace s)
     @ map (emitted s c) (filter (short_execution c) (short (open_orders s))) \<and>
   (distinct (map ident (long (open_orders s))) \<and>
    (\<forall>x \<in> set (long (open_orders s)). position_side x = LONG) \<longrightarrow>
      long (open_orders (match_long bp c s)) =
        map (\<lambda>x. if long_execution c x then x\<lparr>qty := qty x - c_volume c\<rparr> else x)
          (filter (\<lambda>x. \<not> (long_execution c x \<and> c_volume c \<ge> qty x))
             (long (open_orders s))) \<and>
      short (open_orders (match_long bp c s)) = short (open_orders s) \<and>
      (\<forall>x \<in> set (long (open_orders s)). \<not> long_execution c x \<longrightarrow>
         x \<in> set (long (open_orders (match_long bp c s))))) \<and>
   (distinct (map ident (short (open_orders s))) \<and>
    (\<forall>x \<in> set (short (open_orders s)). position_side x = SHORT) \<and>
    (\<forall>x \<in> set (long (open_orders s)). position_side x = LONG) \<longrightarrow>
      short (open_orders (match_short bp c s)) =
        map (\<lambda>x. if short_execution c x then x\<lparr>qty := qty x - c_volume c\<rparr> else x)
          (filter (\<lambda>x. \<not> (short_execution c x \<and> c_volume c \<ge> qty x))
             (short (open_orders s))) \<and>
      long (open_orders (match_short bp c s)) = long (open_orders s) \<and>
      (\<forall>x \<in> set (short (open_orders s)). \<not> short_execution c x \<longrightarrow>
         x \<in> set (short (open_orders (match_short bp c s)))))"
proof -
  have a: "otype order = MARKET \<longrightarrow> long_execution c order \<and> short_execution c order"
    by (simp add: long_execution_iff short_execution_iff)
  have b: "(otype order = LIMIT \<and> side order = BUY \<or> otype order = SL) \<longrightarrow>
      (long_execution c order \<longleftrightarrow> c_low c < price order) \<and>
      (short_execution c order \<longleftrightarrow> c_high c > price order)"
    by (auto simp: long_execution_iff short_execution_iff)
  have d: "(otype order = LIMIT \<and> side order = SELL \<or> otype order = TP) \<longrightarrow>
      (long_execution c order \<longleftrightarrow> c_high c > price order) \<and>
      (short_execution c order \<longleftrightarrow> c_low c < price order)"
    by (auto simp: long_execution_iff short_execution_iff)
  have e: "long_execution c order \<longrightarrow>
      (\<exists>b l sh. trace (fst (long_order_step bp c (s, r) order)) =
         trace s @ [OrderUpdate (fill_copy c order (working_copy s c order)),
                    AccountUpdate b l sh])"
    using long_order_step_trace [of c order bp s r] by (simp add: emitted_def)
  have f: "short_execution c order \<longrightarrow>
      (\<exists>b l sh. trace (fst (short_order_step bp c (s, r) order)) =
         trace s @ [OrderUpdate (fill_copy c order (working_copy s c order)),
                    AccountUpdate b l sh])"
    using short_order_step_trace [of c order bp s r] by (simp add: emitted_def)
  have g: "\<not> long_execution c order \<longrightarrow> long_order_step bp c (s, r) order = (s, r)"
    by (simp add: long_order_step_def)
  have h: "\<not> short_execution c order \<longrightarrow> short_order_step bp c (s, r) order = (s, r)"
    by (simp add: short_order_step_def)
  note i = match_long_updates [of bp c s] match_short_updates [of bp c s]
  have j: "distinct (map ident (long (open_orders s))) \<and>
    (\<forall>x \<in> set (long (open_orders s)). position_side x = LONG) \<longrightarrow>
      long (open_orders (match_long bp c s)) =
        map (\<lambda>x. if long_execution c x then x\<lparr>qty := qty x - c_volume c\<rparr> else x)
          (filter (\<lambda>x. \<not> (long_execution c x \<and> c_volume c \<ge> qty x))
             (long (open_orders s))) \<and>
      short (open_orders (match_long bp c s)) = short (open_orders s) \<and>
      (\<forall>x \<in> set (long (open_orders s)). \<not> long_execution c x \<longrightarrow>
         x \<in> set (long (open_orders (match_long bp c s))))"
  proof
    assume w: "distinct (map ident (long (open_orders s))) \<and>
      (\<forall>x \<in> set (long (open_orders s)). position_side x = LONG)"
    have k: "long (open_orders (match_long bp c s)) =
        after_matching long_execution c (long (open_orders s))"
      "short (open_orders (match_long bp c s)) = short (open_orders s)"
      using match_long_book [of s bp c] w by simp_all
    have "\<forall>x \<in> set (long (open_orders s)). \<not> long_execution c x \<longrightarrow>
         x \<in> set (after_matching long_execution c (long (open_orders s)))"
      by (rule after_matching_keeps)
    then show "long (open_orders (match_long bp c s)) =
        map (\<lambda>x. if long_execution c x then x\<lparr>qty := qty x - c_volume c\<rparr> else x)
          (filter (\<lambda>x. \<not> (long_execution c x \<and> c_volume c \<ge> qty x))
             (long (open_orders s))) \<and>
      short (open_orders (match_long bp c s)) = short (open_orders s) \<and>
      (\<forall>x \<in> set (long (open_orders s)). \<not> long_execution c x \<longrightarrow>
         x \<in> set (long (open_orders (match_long bp c s))))"
      using k by (simp add: after_matching_def)
  qed
  have l: "distinct (map ident (short (open_orders s))) \<and>
    (\<forall>x \<in> set (short (open_orders s)). position_side x = SHORT) \<and>
    (\<forall>x \<in> set (long (open_orders s)). position_side x = LONG) \<longrightarrow>
      short (open_orders (match_short bp c s)) =
        map (\<lambda>x. if short_execution c x then x\<lparr>qty := qty x - c_volume c\<rparr> else x)
          (filter (\<lambda>x. \<not> (short_execution c x \<and> c_volume c \<ge> qty x))
             (short (open_orders s))) \<and>
      long (open_orders (match_short bp c s)) = long (open_orders s) \<and>
      (\<forall>x \<in> set (short (open_orders s)). \<not> short_execution c x \<longrightarrow>
         x \<in> set (short (open_orders (match_short bp c s))))"
  proof
    assume w: "distinct (map ident (short (open_orders s))) \<and>
      (\<forall>x \<in> set (short (open_orders s)). position_side x = SHORT) \<and>
      (\<forall>x \<in> set (long (open_orders s)). position_side x = LONG)"
    have k: "short (open_orders (match_short bp c s)) =
        after_matching short_execution c (short (open_orders s))"
      "long (open_orders (match_short bp c s)) = long (open_orders s)"
      using match_short_book [of s bp c] w by simp_all
    have "\<forall>x \<in> set (short (open_orders s)). \<not> short_execution c x \<longrightarrow>
         x \<in> set (after_matching short_execution c (short (open_orders s)))"
      by (rule after_matching_keeps)
    then show "short (open_orders (match_short bp c s)) =
        map (\<lambda>x. if short_execution c x then x\<lparr>qty := qty x - c_volume c\<rparr> else x)
          (filter (\<lambda>x. \<not> (short_execution c x \<and> c_volume c \<ge> qty x))
             (short (open_orders s))) \<and>
      long (open_orders (match_short bp c s)) = long (open_orders s) \<and>
      (\<forall>x \<in> set (short (open_orders s)). \<not> short_execution c x \<longrightarrow>
         x \<in> set (short (open_orders (match_short bp c s))))"
      using k by (simp add: after_matching_def)
  qed
  show ?thesis
    using a b d e f g h i j l by (intro conjI)
qed

theorem execution_trigger_witness:
  "long_execution trigger_candle trigger_order \<and>
   \<not> long_execution trigger_candle (trigger_order\<lparr>order_id := 5, price := 90\<rparr>) \<and>
   short_execution trigger_candle short_order \<and>
   \<not> short_execution trigger_candle (short_order\<lparr>order_id := 6, price := 110\<rparr>) \<and>
   long_execution trigger_candle (trigger_order\<lparr>otype := MARKET\<rparr>) \<and>
   map ident (long (open_orders mixed_bot)) = [(1, LONG), (5, LONG)] \<and>
   map ident (short (open_orders mixed_bot)) = [(2, SHORT), (6, SHORT)] \<and>
   long (open_orders (match_long zero_bankruptcy_price trigger_candle mixed_bot)) =
     [trigger_order\<lparr>order_id := 5, price := 90\<rparr>] \<and>
   short (open_orders (match_long zero_bankruptcy_price trigger_candle mixed_bot)) =
     [short_order, short_order\<lparr>order_id := 6, price := 110\<rparr>] \<and>
   short (open_orders (match_short zero_bankruptcy_price trigger_candle mixed_bot)) =
     [short_order\<lparr>order_id := 6, price := 110\<rparr>] \<and>
   long (open_orders (match_short zero_bankruptcy_price trigger_candle mixed_bot)) =
     [trigger_order, trigger_order\<lparr>order_id := 5, price := 90\<rparr>] \<and>
   short_order_step zero_bankruptcy_price trigger_candle (mixed_bot, [])
     (short_order\<lparr>order_id := 6, price := 110\<rparr>) = (mixed_bot, [])"
proof -
  have i: "map ident (long (open_orders mixed_bot)) = [(1, LONG), (5, LONG)]"
    "map ident (short (open_orders mixed_bot)) = [(2, SHORT), (6, SHORT)]"
    by (simp_all add: mixed_bot_def trigger_order_def short_order_def ident_def)
  have w: "distinct (map ident (long (open_orders mixed_bot)))"
    "distinct (map ident (short (open_orders mixed_bot)))"
    by (simp_all only: i) simp_all
  have sd: "\<forall>x \<in> set (long (open_orders mixed_bot)). position_side x = LONG"
    "\<forall>x \<in> set (short (open_orders mixed_bot)). position_side x = SHORT"
    by (simp_all add: mixed_bot_def trigger_order_def short_order_def)
  have ex: "long_execution trigger_candle trigger_order"
    "\<not> long_execution trigger_candle (trigger_order\<lparr>order_id := 5, price := 90\<rparr>)"
    "short_execution trigger_candle short_order"
    "\<not> short_execution trigger_candle (short_order\<lparr>order_id := 6, price := 110\<rparr>)"
    "long_execution trigger_candle (trigger_order\<lparr>otype := MARKET\<rparr>)"
    by (simp_all add: long_execution_iff short_execution_iff trigger_candle_def
        trigger_order_def short_order_def)
  have q: "c_volume trigger_candle \<ge> qty trigger_order"
    "c_volume trigger_candle \<ge> qty short_order"
    by (simp_all add: trigger_candle_def trigger_order_def short_order_def)
  have bk: "long (open_orders mixed_bot) =
      [trigger_order, trigger_order\<lparr>order_id := 5, price := 90\<rparr>]"
    "short (open_orders mixed_bot) = [short_order, short_order\<lparr>order_id := 6, price := 110\<rparr>]"
    by (simp_all add: mixed_bot_def)
  note t = execution_trigger [of "short_order\<lparr>order_id := 6, price := 110\<rparr>" trigger_candle
      zero_bankruptcy_price mixed_bot "[]"]
  have lb: "long (open_orders (match_long zero_bankruptcy_price trigger_candle mixed_bot)) =
        map (\<lambda>x. if long_execution trigger_candle x
                 then x\<lparr>qty := qty x - c_volume trigger_candle\<rparr> else x)
          (filter (\<lambda>x. \<not> (long_execution trigger_candle x \<and> c_volume trigger_candle \<ge> qty x))
             (long (open_orders mixed_bot))) \<and>
      short (open_orders (match_long zero_bankruptcy_price trigger_candle mixed_bot)) =
        short (open_orders mixed_bot)"
    using t w(1) sd(1) by blast
  have sb: "short (open_orders (match_short zero_bankruptcy_price trigger_candle mixed_bot)) =
        map (\<lambda>x. if short_execution trigger_candle x
                 then x\<lparr>qty := qty x - c_volume trigger_candle\<rparr> else x)
          (filter (\<lambda>x. \<not> (short_execution trigger_candle x \<and> c_volume trigger_candle \<ge> qty x))
             (short (open_orders mixed_bot))) \<and>
      long (open_orders (match_short zero_bankruptcy_price trigger_candle mixed_bot)) =
        long (open_orders mixed_bot)"
    using t w(2) sd by blast
  have nb: "short_order_step zero_bankruptcy_price trigger_candle (mixed_bot, [])
     (short_order\<lparr>order_id := 6, price := 110\<rparr>) = (mixed_bot, [])"
    using t ex(4) by blast
  have l1: "long (open_orders (match_long zero_bankruptcy_price trigger_candle mixed_bot)) =
     [trigger_order\<lparr>order_id := 5, price := 90\<rparr>]"
    using lb by (simp add: bk ex q)
  have l2: "short (open_orders (match_long zero_bankruptcy_price trigger_candle mixed_bot)) =
     [short_order, short_order\<lparr>order_id := 6, price := 110\<rparr>]"
    using lb by (simp add: bk)
  have s1: "short (open_orders (match_short zero_bankruptcy_price trigger_candle mixed_bot)) =
     [short_order\<lparr>order_id := 6, price := 110\<rparr>]"
    using sb by (simp add: bk ex q)
  have s2: "long (open_orders (match_short zero_bankruptcy_price trigger_candle mixed_bot)) =
     [trigger_order, trigger_order\<lparr>order_id := 5, price := 90\<rparr>]"
    using sb by (simp add: bk)
  show ?thesis
    using ex i l1 l2 s1 s2 nb by (intro conjI)
qed

subsection \<open>Admission of the pending orders\<close>

lemma same_config_refl [simp]: "same_config s s"
  by (simp add: same_config_def)

lemma same_config_trans: "same_config a b \<Longrightarrow> same_config b d \<Longrightarrow> same_config a d"
  by (simp add: same_config_def)

lemma same_account_refl [simp]: "same_account s s"
  by (simp add: same_account_def)

lemma same_config_due: "same_config s s' \<Longrightarrow> due s' = due s"
  by (auto simp: same_config_def due_def fun_eq_iff)

lemma same_margin:
  "same_config s s' \<Longrightarrow> same_account s s' \<Longrightarrow> available_margin s' c = available_margin s c"
  by (simp add: same_config_def same_account_def available_margin_def)

lemma same_admitted:
  "same_config s s' \<Longrightarrow> same_account s s' \<Longrightarrow> admitted s' c = admitted s c"
  using same_config_due [of s s'] same_margin [of s s' c]
  by (auto simp: admitted_def fun_eq_iff)

lemma long_order_step_same:
  "same_config s (fst (long_order_step bp c (s, r) order)) \<and>
   orders_to_execute (fst (long_order_step bp c (s, r) order)) = orders_to_execute s"
  by (simp add: long_order_step_def Let_def same_config_def)

lemma short_order_step_same:
  "same_config s (fst (short_order_step bp c (s, r) order)) \<and>
   orders_to_execute (fst (short_order_step bp c (s, r) order)) = orders_to_execute s"
  by (simp add: short_order_step_def Let_def same_config_def)

lemma long_loop_same:
  "same_config s (fst (foldl (long_order_step bp c) (s, r) xs)) \<and>
   orders_to_execute (fst (foldl (long_order_step bp c) (s, r) xs)) = orders_to_execute s"
proof (induction xs arbitrary: s r)
  case Nil
  show ?case by simp
next
  case (Cons x xs)
  obtain s' r' where st: "long_order_step bp c (s, r) x = (s', r')"
    by (cases "long_order_step bp c (s, r) x")
  have "same_config s s' \<and> orders_to_execute s' = orders_to_execute s"
    using long_order_step_same [of s bp c r x] st by simp
  then show ?case
    using Cons.IH [of s' r'] st same_config_trans by auto
qed

lemma short_loop_same:
  "same_config s (fst (foldl (short_order_step bp c) (s, r) xs)) \<and>
   orders_to_execute (fst (foldl (short_order_step bp c) (s, r) xs)) = orders_to_execute s"
proof (induction xs arbitrary: s r)
  case Nil
  show ?case by simp
next
  case (Cons x xs)
  obtain s' r' where st: "short_order_step bp c (s, r) x = (s', r')"
    by (cases "short_order_step bp c (s, r) x")
  have "same_config s s' \<and> orders_to_execute s' = orders_to_execute s"
    using short_order_step_same [of s bp c r x] st by simp
  then show ?case
    using Cons.IH [of s' r'] st same_config_trans by auto
qed

lemma match_long_same:
  "same_config s (match_long bp c s) \<and>
   orders_to_execute (match_long bp c s) = orders_to_execute s"
  using long_loop_same [of s bp c "[]" "long (open_orders s)"]
  by (simp add: match_long_def Let_def same_config_def)

lemma match_short_same:
  "same_config s (match_short bp c s) \<and>
   orders_to_execute (match_short bp c s) = orders_to_execute s"
  using short_loop_same [of s bp c "[]" "short (open_orders s)"]
  by (simp add: match_short_def Let_def same_config_def)

lemma admit_step_result:
  "admit_step c (s, r) order =
     ((if admitted s c order then handle_order_update s order else s),
      (if due s order then r @ [order] else r))"
  by (simp add: admit_step_def admitted_def Let_def)

lemma admit_loop:
  assumes "same_config s0 s" and "same_account s0 s"
  shows "same_config s0 (fst (foldl (admit_step c) (s, r) xs)) \<and>
    same_account s0 (fst (foldl (admit_step c) (s, r) xs)) \<and>
    orders_to_execute (fst (foldl (admit_step c) (s, r) xs)) = orders_to_execute s \<and>
    snd (foldl (admit_step c) (s, r) xs) = r @ filter (due s0) xs \<and>
    trace (fst (foldl (admit_step c) (s, r) xs)) =
      trace s @ map OrderUpdate (filter (admitted s0 c) xs) \<and>
    open_orders (fst (foldl (admit_step c) (s, r) xs)) =
      forward_all (filter (admitted s0 c) xs) (open_orders s)"
  using assms
proof (induction xs arbitrary: s r)
  case Nil
  then show ?case by (simp add: forward_all_def)
next
  case (Cons x xs)
  let ?s' = "if admitted s c x then handle_order_update s x else s"
  let ?r' = "if due s x then r @ [x] else r"
  have t: "due s = due s0" "admitted s c = admitted s0 c"
    using same_config_due [OF Cons.prems(1)] same_admitted [OF Cons.prems]
    by simp_all
  have sc: "same_config s0 ?s'"
    using Cons.prems(1) by (simp add: same_config_def)
  have sa: "same_account s0 ?s'"
    using Cons.prems(2) by (simp add: same_account_def)
  have step: "foldl (admit_step c) (s, r) (x # xs) = foldl (admit_step c) (?s', ?r') xs"
    by (simp add: admit_step_result)
  show ?case
    using Cons.IH [OF sc sa, of ?r'] t
    by (simp only: step) (simp add: forward_all_def)
qed

lemma admit_long_result:
  "same_config s (admit_long c s) \<and> same_account s (admit_long c s) \<and>
   trace (admit_long c s) =
     trace s @ map OrderUpdate (filter (admitted s c) (long (orders_to_execute s))) \<and>
   open_orders (admit_long c s) =
     forward_all (filter (admitted s c) (long (orders_to_execute s))) (open_orders s) \<and>
   long (orders_to_execute (admit_long c s)) =
     unlisted (filter (due s) (long (orders_to_execute s))) (long (orders_to_execute s)) \<and>
   short (orders_to_execute (admit_long c s)) = short (orders_to_execute s)"
  using admit_loop [of s s c "[]" "long (orders_to_execute s)"]
  by (simp add: admit_long_def Let_def delete_long_def unlisted_def same_config_def
      same_account_def)

lemma admit_short_result:
  "same_config s (admit_short c s) \<and> same_account s (admit_short c s) \<and>
   trace (admit_short c s) =
     trace s @ map OrderUpdate (filter (admitted s c) (short (orders_to_execute s))) \<and>
   open_orders (admit_short c s) =
     forward_all (filter (admitted s c) (short (orders_to_execute s))) (open_orders s) \<and>
   short (orders_to_execute (admit_short c s)) =
     unlisted (filter (due s) (short (orders_to_execute s))) (short (orders_to_execute s)) \<and>
   long (orders_to_execute (admit_short c s)) = long (orders_to_execute s)"
  using admit_loop [of s s c "[]" "short (orders_to_execute s)"]
  by (simp add: admit_short_def Let_def delete_short_def unlisted_def same_config_def
      same_account_def)

lemma step_admission:
  fixes s :: BacktestBot and c :: Candle and bp :: bankruptcy
  assumes "0 < available_margin s c"
  defines "m \<equiv> match_short bp c (match_long bp c s)"
  defines "t \<equiv> fst (execute_exchange_logic bp s c)"
  shows "snd (execute_exchange_logic bp s c) = True"
    and "due m = due s"
    and "trace t = trace m
           @ map OrderUpdate (filter (admitted m c) (long (orders_to_execute s)))
           @ map OrderUpdate (filter (admitted m c) (short (orders_to_execute s)))"
    and "open_orders t =
           forward_all (filter (admitted m c) (short (orders_to_execute s)))
             (forward_all (filter (admitted m c) (long (orders_to_execute s))) (open_orders m))"
    and "long (orders_to_execute t) =
           unlisted (filter (due s) (long (orders_to_execute s))) (long (orders_to_execute s))"
    and "short (orders_to_execute t) =
           unlisted (filter (due s) (short (orders_to_execute s))) (short (orders_to_execute s))"
proof -
  have t: "t = admit_short c (admit_long c m)"
    using assms(1) by (simp add: t_def m_def execute_exchange_logic_def)
  show "snd (execute_exchange_logic bp s c) = True"
    using assms(1) by (simp add: execute_exchange_logic_def)
  have cm: "same_config s m" and qm: "orders_to_execute m = orders_to_execute s"
    using match_long_same [of s bp c] match_short_same [of "match_long bp c s" bp c]
      same_config_trans
    by (auto simp: m_def)
  show dm: "due m = due s"
    using same_config_due [OF cm] .
  note l = admit_long_result [of m c]
  note sh = admit_short_result [of "admit_long c m" c]
  have ad: "admitted (admit_long c m) c = admitted m c"
    using l same_admitted by blast
  have du: "due (admit_long c m) = due m"
    using l same_config_due by blast
  show "trace t = trace m
           @ map OrderUpdate (filter (admitted m c) (long (orders_to_execute s)))
           @ map OrderUpdate (filter (admitted m c) (short (orders_to_execute s)))"
    using l sh ad qm by (simp add: t)
  show "open_orders t =
           forward_all (filter (admitted m c) (short (orders_to_execute s)))
             (forward_all (filter (admitted m c) (long (orders_to_execute s))) (open_orders m))"
    using l sh ad qm by (simp add: t)
  show "long (orders_to_execute t) =
           unlisted (filter (due s) (long (orders_to_execute s))) (long (orders_to_execute s))"
    using l sh dm qm by (simp add: t)
  show "short (orders_to_execute t) =
           unlisted (filter (due s) (short (orders_to_execute s))) (short (orders_to_execute s))"
    using l sh du dm qm by (simp add: t)
qed

lemma listed_self: "x \<in> set os \<Longrightarrow> listed os x"
  by (auto simp: listed_def list_ex_iff same_order_def)

lemma forward_all_new_long:
  "\<forall>x \<in> set xs. action x = NEW \<and> position_side x = LONG \<Longrightarrow>
   forward_all xs ol = ol\<lparr>long := long ol @ xs\<rparr>"
proof (induction xs arbitrary: ol)
  case Nil
  show ?case by (simp add: forward_all_def)
next
  case (Cons x xs)
  have f: "forward_order x ol = add_long [x] ol"
    using Cons.prems by (simp add: forward_order_def)
  have "forward_all (x # xs) ol = forward_all xs (add_long [x] ol)"
    by (simp add: forward_all_def f)
  also have "\<dots> = (add_long [x] ol)\<lparr>long := long (add_long [x] ol) @ xs\<rparr>"
    using Cons.prems by (intro Cons.IH) simp
  finally show ?case
    by (simp add: add_long_def)
qed

lemma forward_all_new_short:
  "\<forall>x \<in> set xs. action x = NEW \<and> position_side x = SHORT \<Longrightarrow>
   forward_all xs ol = ol\<lparr>short := short ol @ xs\<rparr>"
proof (induction xs arbitrary: ol)
  case Nil
  show ?case by (simp add: forward_all_def)
next
  case (Cons x xs)
  have f: "forward_order x ol = add_short [x] ol"
    using Cons.prems by (simp add: forward_order_def)
  have "forward_all (x # xs) ol = forward_all xs (add_short [x] ol)"
    by (simp add: forward_all_def f)
  also have "\<dots> = (add_short [x] ol)\<lparr>short := short (add_short [x] ol) @ xs\<rparr>"
    using Cons.prems by (intro Cons.IH) simp
  finally show ?case
    by (simp add: add_short_def)
qed

lemma unlisted_distinct:
  assumes "distinct (map ident xs)"
  shows "filter (\<lambda>x. \<not> listed (filter P xs) x) xs = filter (\<lambda>x. \<not> P x) xs"
proof (rule filter_cong [OF refl])
  fix x
  assume x: "x \<in> set xs"
  have inj: "inj_on ident (set xs)"
    using assms by (simp add: distinct_map)
  have "listed (filter P xs) x \<longleftrightarrow> P x"
  proof
    assume "listed (filter P xs) x"
    then obtain y where y: "y \<in> set xs" "P y" "ident x = ident y"
      by (auto simp: listed_ident)
    have "x = y"
      using inj x y(1,3) by (auto dest: inj_onD)
    then show "P x" using y(2) by simp
  next
    assume "P x"
    then show "listed (filter P xs) x"
      using x by (auto simp: listed_ident)
  qed
  then show "(\<not> listed (filter P xs) x) = (\<not> P x)" by simp
qed

text \<open>
  Claim C4, as amended.  In a step that does not liquidate, a pending order of either
  queue is inspected exactly when its timestamp plus the latency is at most the
  current timestamp.  The inspected orders that are handed to \<open>handle_order_update\<close>
  are exactly those with \<open>qty * price\<close> below the available margin at the close of the
  candle (computed on the account as the matching loops left it), in the order of the
  queues, long before short; the others cause no emission.  The open book after the
  step is what these calls make of the book that the matching left; when the queues
  hold new orders of their own position side, it is that book with the admitted
  orders appended, and no other.  Every inspected order is gone from its queue
  afterwards.  On a queue whose orders have pairwise distinct identities the queue
  afterwards is exactly the orders that are not yet due, in their order; in general a
  pending order that is not yet due stays unless an inspected order of its queue has
  its identity.
\<close>

theorem pending_admission:
  assumes "0 < available_margin s c"
  shows
    "(let m = match_short bp c (match_long bp c s);
          t = fst (execute_exchange_logic bp s c);
          ql = long (orders_to_execute s);
          qs = short (orders_to_execute s);
          pass = (\<lambda>x. due s x \<and> qty x * price x < available_margin m c)
      in trace t = trace m @ map OrderUpdate (filter pass ql) @ map OrderUpdate (filter pass qs) \<and>
         open_orders t =
           foldl (\<lambda>b x. forward_order x b)
             (foldl (\<lambda>b x. forward_order x b) (open_orders m) (filter pass ql))
             (filter pass qs) \<and>
         long (orders_to_execute t) = filter (\<lambda>x. \<not> listed (filter (due s) ql) x) ql \<and>
         short (orders_to_execute t) = filter (\<lambda>x. \<not> listed (filter (due s) qs) x) qs \<and>
         (\<forall>x \<in> set ql. due s x \<longrightarrow> x \<notin> set (long (orders_to_execute t))) \<and>
         (\<forall>x \<in> set qs. due s x \<longrightarrow> x \<notin> set (short (orders_to_execute t))) \<and>
         (\<forall>x \<in> set ql. \<not> due s x \<and> \<not> listed (filter (due s) ql) x \<longrightarrow>
            x \<in> set (long (orders_to_execute t))) \<and>
         (\<forall>x \<in> set qs. \<not> due s x \<and> \<not> listed (filter (due s) qs) x \<longrightarrow>
            x \<in> set (short (orders_to_execute t))) \<and>
         ((\<forall>x \<in> set ql. action x = NEW \<and> position_side x = LONG) \<and>
          (\<forall>x \<in> set qs. action x = NEW \<and> position_side x = SHORT) \<longrightarrow>
            long (open_orders t) = long (open_orders m) @ filter pass ql \<and>
            short (open_orders t) = short (open_orders m) @ filter pass qs) \<and>
         (distinct (map ident ql) \<longrightarrow>
            long (orders_to_execute t) = filter (\<lambda>x. \<not> due s x) ql) \<and>
         (distinct (map ident qs) \<longrightarrow>
            short (orders_to_execute t) = filter (\<lambda>x. \<not> due s x) qs) \<and>
         snd (execute_exchange_logic bp s c) = True)"
proof -
  define m where "m = match_short bp c (match_long bp c s)"
  define t where "t = fst (execute_exchange_logic bp s c)"
  define ql where "ql = long (orders_to_execute s)"
  define qs where "qs = short (orders_to_execute s)"
  define pass where "pass = (\<lambda>x. due s x \<and> qty x * price x < available_margin m c)"
  note st = step_admission [OF assms, of bp, folded m_def t_def ql_def qs_def]
  have pa: "admitted m c = pass"
    using st(2) by (auto simp: admitted_def pass_def fun_eq_iff)
  have a: "trace t = trace m @ map OrderUpdate (filter pass ql) @ map OrderUpdate (filter pass qs)"
    using st(3) pa by simp
  have b: "open_orders t =
           foldl (\<lambda>b x. forward_order x b)
             (foldl (\<lambda>b x. forward_order x b) (open_orders m) (filter pass ql))
             (filter pass qs)"
    using st(4) pa by (simp add: forward_all_def)
  have d: "long (orders_to_execute t) = filter (\<lambda>x. \<not> listed (filter (due s) ql) x) ql"
    using st(5) by (simp add: unlisted_def)
  have e: "short (orders_to_execute t) = filter (\<lambda>x. \<not> listed (filter (due s) qs) x) qs"
    using st(6) by (simp add: unlisted_def)
  have f: "\<forall>x \<in> set ql. due s x \<longrightarrow> x \<notin> set (long (orders_to_execute t))"
    using listed_self [of _ "filter (due s) ql"] by (auto simp: d)
  have g: "\<forall>x \<in> set qs. due s x \<longrightarrow> x \<notin> set (short (orders_to_execute t))"
    using listed_self [of _ "filter (due s) qs"] by (auto simp: e)
  have h: "\<forall>x \<in> set ql. \<not> due s x \<and> \<not> listed (filter (due s) ql) x \<longrightarrow>
            x \<in> set (long (orders_to_execute t))"
    by (simp add: d)
  have i: "\<forall>x \<in> set qs. \<not> due s x \<and> \<not> listed (filter (due s) qs) x \<longrightarrow>
            x \<in> set (short (orders_to_execute t))"
    by (simp add: e)
  have j: "(\<forall>x \<in> set ql. action x = NEW \<and> position_side x = LONG) \<and>
          (\<forall>x \<in> set qs. action x = NEW \<and> position_side x = SHORT) \<longrightarrow>
            long (open_orders t) = long (open_orders m) @ filter pass ql \<and>
            short (open_orders t) = short (open_orders m) @ filter pass qs"
  proof
    assume n: "(\<forall>x \<in> set ql. action x = NEW \<and> position_side x = LONG) \<and>
          (\<forall>x \<in> set qs. action x = NEW \<and> position_side x = SHORT)"
    have nl: "\<forall>x \<in> set (filter pass ql). action x = NEW \<and> position_side x = LONG"
      using n by simp
    have ns: "\<forall>x \<in> set (filter pass qs). action x = NEW \<and> position_side x = SHORT"
      using n by simp
    have "open_orders t =
        forward_all (filter pass qs) (forward_all (filter pass ql) (open_orders m))"
      using st(4) pa by simp
    then have "open_orders t =
        ((open_orders m)\<lparr>long := long (open_orders m) @ filter pass ql\<rparr>)
          \<lparr>short := short ((open_orders m)\<lparr>long := long (open_orders m) @ filter pass ql\<rparr>)
             @ filter pass qs\<rparr>"
      by (simp only: forward_all_new_long [OF nl] forward_all_new_short [OF ns])
    then show "long (open_orders t) = long (open_orders m) @ filter pass ql \<and>
            short (open_orders t) = short (open_orders m) @ filter pass qs"
      by simp
  qed
  have k: "distinct (map ident ql) \<longrightarrow>
            long (orders_to_execute t) = filter (\<lambda>x. \<not> due s x) ql"
    using unlisted_distinct [of ql "due s"] by (simp add: d)
  have l: "distinct (map ident qs) \<longrightarrow>
            short (orders_to_execute t) = filter (\<lambda>x. \<not> due s x) qs"
    using unlisted_distinct [of qs "due s"] by (simp add: e)
  note n = st(1)
  show ?thesis
    unfolding Let_def m_def [symmetric] t_def [symmetric] ql_def [symmetric]
      qs_def [symmetric] pass_def [symmetric]
    using a b d e f g h i j k l n by (intro conjI)
qed

lemma base_margin: "available_margin base_bot c = 1000"
  by (simp add: available_margin_def calculate_available_margin_def calculate_long_pnl_def
      calculate_short_pnl_def base_bot_def flat_def)

lemma latency_margin: "available_margin latency_bot trigger_candle = 1000"
  by (simp add: available_margin_def calculate_available_margin_def calculate_long_pnl_def
      calculate_short_pnl_def latency_bot_def base_bot_def flat_def)


lemma match_empty:
  "long (open_orders s) = [] \<Longrightarrow> short (open_orders s) = [] \<Longrightarrow>
   match_short bp c (match_long bp c s) = s"
  by (simp add: match_long_def match_short_def delete_long_def Let_def)

theorem pending_admission_witness:
  "0 < available_margin latency_bot trigger_candle \<and>
   trace (fst (execute_exchange_logic zero_bankruptcy_price latency_bot trigger_candle)) =
     [OrderUpdate latency_order] \<and>
   long (open_orders
     (fst (execute_exchange_logic zero_bankruptcy_price latency_bot trigger_candle))) =
     [latency_order] \<and>
   long (orders_to_execute
     (fst (execute_exchange_logic zero_bankruptcy_price latency_bot trigger_candle))) =
     [latency_order\<lparr>order_id := 4, timestamp := 1400\<rparr>]"
proof -
  have m: "0 < available_margin latency_bot trigger_candle"
    by (simp add: latency_margin)
  have e: "match_short zero_bankruptcy_price trigger_candle
      (match_long zero_bankruptcy_price trigger_candle latency_bot) = latency_bot"
    by (rule match_empty) (simp_all add: latency_bot_def base_bot_def empty_book_def)
  show ?thesis
    using m pending_admission [OF m, of zero_bankruptcy_price]
    by (simp add: Let_def e latency_margin)
      (simp add: latency_bot_def base_bot_def empty_book_def latency_order_def due_def
        listed_def same_order_def forward_order_def add_long_def)
qed

text \<open>
  The claim as stated, for every step, fails on a step that liquidates: it returns on
  line 125, before the admission loops, so the pending order of \<open>liq_pending_bot\<close>,
  which is due, is not inspected and is still in the queue after the step.
\<close>

theorem pending_liquidation_counterexample:
  "due liq_pending_bot latency_order \<and>
   latency_order \<in> set (long (orders_to_execute liq_pending_bot)) \<and>
   latency_order \<in> set (long (orders_to_execute
     (fst (execute_exchange_logic zero_bankruptcy_price liq_pending_bot liq_candle)))) \<and>
   order_updates (trace
     (fst (execute_exchange_logic zero_bankruptcy_price liq_pending_bot liq_candle))) =
     [liquidation_order liq_pending_bot liq_candle 10 LONG] \<and>
   snd (execute_exchange_logic zero_bankruptcy_price liq_pending_bot liq_candle) = False"
proof -
  have m: "available_margin liq_pending_bot liq_candle \<le> 0"
    by (simp add: available_margin_def calculate_available_margin_def calculate_long_pnl_def
        calculate_short_pnl_def liq_pending_bot_def liq_bot_def liq_candle_def base_bot_def
        flat_def)
  have d: "due liq_pending_bot latency_order"
    by (simp add: due_def liq_pending_bot_def liq_bot_def base_bot_def latency_order_def)
  show ?thesis
    using m d
    by (simp add: execute_exchange_logic_def liquidate_long_def liquidate_short_def Let_def)
      (simp add: liq_pending_bot_def liq_bot_def base_bot_def flat_def)
qed

subsection \<open>Evaluating the step on concrete inputs\<close>

lemmas scen = base_bot_def flat_def empty_book_def trigger_order_def

lemmas kernel = available_margin_def calculate_available_margin_def calculate_long_pnl_def
      calculate_short_pnl_def quantity_to_cost_def round_down_def
      calculate_new_position_size_position_price_def

lemmas stepdefs = execute_exchange_logic_def match_long_def match_short_def admit_long_def
  admit_short_def long_order_step_def short_order_step_def admit_step_def
  long_execution_def short_execution_def working_copy_def fill_copy_def fill_qty_def
  fee_paid_def average4_def due_def

lemmas bookdefs = forward_order_def delete_long_def delete_short_def add_long_def add_short_def
  set_qty_long_def set_qty_short_def set_qty_def listed_def same_order_def

subsection \<open>Partial fills\<close>

text \<open>
  Claim C3, as amended.  For the account with no position and the single open limit
  buy of 10 at 100 on the long book, the candle with low 99, high 101 and volume 3
  yields exactly one order update, with action \<open>PARTIALLY_FILLED\<close> and quantity 7,
  the quantity that remains open (line 153 subtracts the volume of the candle from the
  quantity of the working copy before it is emitted); the open order stays in the book
  with quantity 7, and the long position gets size 3.
\<close>

theorem partial_fill_emits_remaining:
  "trace (fst (execute_exchange_logic bp partial_bot partial_candle)) =
     [OrderUpdate (partial_order\<lparr>action := PARTIALLY_FILLED, qty := 7\<rparr>),
      AccountUpdate (1000 - 7 / 50)
        \<lparr>p_symbol = ''BTCUSDT'', p_size = 3, p_price = 100,
         p_liquidation_price = bp (1000 - 7 / 50) 3 100 0 0,
         p_fifth = 0, p_leverage = 10, p_position_side = LONG\<rparr>
        (flat SHORT)] \<and>
   long (open_orders (fst (execute_exchange_logic bp partial_bot partial_candle))) =
     [partial_order\<lparr>qty := 7\<rparr>] \<and>
   p_size (pos_long (fst (execute_exchange_logic bp partial_bot partial_candle))) = 3 \<and>
   snd (execute_exchange_logic bp partial_bot partial_candle) = True"
  by (simp add: partial_bot_def partial_candle_def partial_order_def scen kernel stepdefs
      bookdefs Let_def)

theorem partial_fill_emits_remaining_witness:
  "map qty (order_updates (trace (fst
     (execute_exchange_logic zero_bankruptcy_price partial_bot partial_candle)))) = [7] \<and>
   map action (order_updates (trace (fst
     (execute_exchange_logic zero_bankruptcy_price partial_bot partial_candle)))) =
     [PARTIALLY_FILLED]"
  using partial_fill_emits_remaining [of zero_bankruptcy_price]
  by (simp add: partial_order_def)

text \<open>
  The claim as stated, an emission with action \<open>PARTIALLY_FILLED\<close> and quantity 3,
  fails: no order update of that step has both.
\<close>

theorem partial_fill_counterexample:
  "\<not> (\<exists>x. OrderUpdate x \<in> set (trace (fst
        (execute_exchange_logic zero_bankruptcy_price partial_bot partial_candle))) \<and>
      action x = PARTIALLY_FILLED \<and> qty x = 3)"
  by (simp add: partial_bot_def partial_candle_def partial_order_def scen kernel stepdefs
      bookdefs Let_def)

subsection \<open>The price of a market fill\<close>

lemma market_price:
  "otype order = MARKET \<Longrightarrow>
   price (emitted s c order) =
     round_down ((c_open c + c_high c + c_low c + c_close c) / 4) (price_step s)"
  by (simp add: emitted_def fill_copy_def working_copy_def average4_def)

text \<open>
  Claim C8.  For a market order, the order update emitted by the body of either
  matching loop carries the price \<open>round_down\<close> of the mean of open, high, low and
  close of the candle, with the price step of the bot; the step on the open market buy
  of scenario 6 emits exactly one order update, with price 105.
\<close>

theorem market_fill_price:
  "(otype order = MARKET \<longrightarrow>
      (\<exists>x b l sh. trace (fst (long_order_step bp c (s, r) order)) =
          trace s @ [OrderUpdate x, AccountUpdate b l sh] \<and>
        price x = round_down ((c_open c + c_high c + c_low c + c_close c) / 4) (price_step s)) \<and>
      (\<exists>x b l sh. trace (fst (short_order_step bp c (s, r) order)) =
          trace s @ [OrderUpdate x, AccountUpdate b l sh] \<and>
        price x = round_down ((c_open c + c_high c + c_low c + c_close c) / 4) (price_step s))) \<and>
   map price (order_updates (trace (fst (execute_exchange_logic bp market_bot market_candle)))) =
     [105]"
proof -
  have a: "otype order = MARKET \<longrightarrow>
      (\<exists>x b l sh. trace (fst (long_order_step bp c (s, r) order)) =
          trace s @ [OrderUpdate x, AccountUpdate b l sh] \<and>
        price x = round_down ((c_open c + c_high c + c_low c + c_close c) / 4) (price_step s))"
    using long_order_step_trace [of c order bp s r] market_price [of order s c]
    by (auto simp: long_execution_iff)
  have b: "otype order = MARKET \<longrightarrow>
      (\<exists>x b l sh. trace (fst (short_order_step bp c (s, r) order)) =
          trace s @ [OrderUpdate x, AccountUpdate b l sh] \<and>
        price x = round_down ((c_open c + c_high c + c_low c + c_close c) / 4) (price_step s))"
    using short_order_step_trace [of c order bp s r] market_price [of order s c]
    by (auto simp: short_execution_iff)
  have d: "map price (order_updates (trace (fst
      (execute_exchange_logic bp market_bot market_candle)))) = [105]"
    by (simp add: market_bot_def market_candle_def market_order_def scen kernel stepdefs
        bookdefs Let_def)
  from a b d show ?thesis by blast
qed

theorem market_fill_price_witness:
  "otype market_order = MARKET \<and>
   (\<exists>x b l sh. trace (fst (long_order_step zero_bankruptcy_price market_candle
        (market_bot, []) market_order)) = [OrderUpdate x, AccountUpdate b l sh] \<and> price x = 105)"
proof -
  have m: "otype market_order = MARKET"
    by (simp add: market_order_def)
  have t: "trace market_bot = []" "price_step market_bot = 1"
    by (simp_all add: market_bot_def base_bot_def)
  have v: "round_down ((c_open market_candle + c_high market_candle + c_low market_candle
      + c_close market_candle) / 4) 1 = 105"
    by (simp add: market_candle_def round_down_def)
  show ?thesis
    using m market_fill_price [of market_order zero_bankruptcy_price market_candle
        market_bot "[]"]
    by (simp add: t v)
qed

subsection \<open>The position side after a fill on the short book\<close>

text \<open>
  Claim C5 does not hold of the source: line 226 assigns \<open>LONG\<close> to the position side
  of the updated short position, so after every fill on the short book the position
  passed in the short slot of \<open>handle_account_update\<close>, and stored as the short
  position, has position side \<open>LONG\<close>.
\<close>

theorem short_fill_position_side:
  "short_execution c order \<Longrightarrow>
   (\<exists>x b l p. trace (fst (short_order_step bp c (s, r) order)) =
      trace s @ [OrderUpdate x, AccountUpdate b l p] \<and> p_position_side p = LONG) \<and>
   p_position_side (pos_short (fst (short_order_step bp c (s, r) order))) = LONG"
  by (simp add: short_order_step_def Let_def)

theorem short_fill_position_side_witness:
  "short_execution short_candle short_order \<and>
   p_position_side (pos_short (fst (short_order_step zero_bankruptcy_price short_candle
      (short_bot, []) short_order))) = LONG \<and>
   p_position_side (pos_short (fst
      (execute_exchange_logic zero_bankruptcy_price short_bot short_candle))) = LONG"
proof -
  have e: "short_execution short_candle short_order"
    by (simp add: short_execution_iff short_candle_def short_order_def)
  have f: "p_position_side (pos_short (fst
      (execute_exchange_logic zero_bankruptcy_price short_bot short_candle))) = LONG"
    by (simp add: short_bot_def short_candle_def short_order_def scen kernel stepdefs
        bookdefs Let_def)
  show ?thesis
    using e f short_fill_position_side [OF e, of zero_bankruptcy_price short_bot "[]"]
    by simp
qed

subsection \<open>A cancellation that fails the margin test\<close>

lemma cancel_margin: "available_margin cancel_bot cancel_candle = 500"
  by (simp add: cancel_bot_def cancel_candle_def scen kernel)

text \<open>
  Claim C7 does not hold of the source: the admission loop applies the margin test of
  lines 238 to 244 to every pending order, whatever its action.  The due cancellation
  of an open order of notional 570, with an available margin of 500, is dropped: the
  step emits nothing, the queue is emptied and the open order stays in the book.  With
  a balance of 2000 the same cancellation passes the test and removes the order.
\<close>

theorem cancel_dropped_for_margin:
  "due cancel_bot (cancel_target\<lparr>timestamp := 400, action := CANCELED\<rparr>) \<and>
   trace (fst (execute_exchange_logic bp cancel_bot cancel_candle)) = [] \<and>
   long (open_orders (fst (execute_exchange_logic bp cancel_bot cancel_candle))) =
     [cancel_target] \<and>
   long (orders_to_execute (fst (execute_exchange_logic bp cancel_bot cancel_candle))) = [] \<and>
   trace (fst (execute_exchange_logic bp (cancel_bot\<lparr>balance := 2000\<rparr>) cancel_candle)) =
     [OrderUpdate (cancel_target\<lparr>timestamp := 400, action := CANCELED\<rparr>)] \<and>
   long (open_orders
     (fst (execute_exchange_logic bp (cancel_bot\<lparr>balance := 2000\<rparr>) cancel_candle))) = []"
  by (simp add: cancel_bot_def cancel_candle_def cancel_target_def scen kernel stepdefs
      bookdefs Let_def)

subsection \<open>Orders with no valid position side\<close>

lemma stamp_side [simp]: "position_side (stamp s a x) = position_side x"
  by (simp add: stamp_def)

lemma sort_orders_result:
  "sort_orders s a os acc =
     (fst acc @ filter (\<lambda>x. position_side x = LONG) (map (stamp s a) os),
      snd acc @ filter (\<lambda>x. position_side x = SHORT) (map (stamp s a) os))"
  by (induction os arbitrary: acc) (auto simp: Let_def)

lemma submit_result:
  "orders_to_execute (fst (submit s a os)) =
     \<lparr>long = long (orders_to_execute s)
         @ filter (\<lambda>x. position_side x = LONG) (map (stamp s a) os),
      short = short (orders_to_execute s)
         @ filter (\<lambda>x. position_side x = SHORT) (map (stamp s a) os)\<rparr> \<and>
   snd (submit s a os) = map (stamp s a) os \<and>
   fst (submit s a os) = s\<lparr>orders_to_execute := orders_to_execute (fst (submit s a os))\<rparr>"
  by (simp add: submit_def sort_orders_result add_long_def add_short_def Let_def)

lemma submit_skip:
  assumes "position_side order \<noteq> LONG" and "position_side order \<noteq> SHORT"
  shows "fst (submit s a (xs @ order # ys)) = fst (submit s a (xs @ ys))"
  using assms by (simp add: submit_def sort_orders_result Let_def)

text \<open>
  Claim C10.  An order passed to \<open>create_orders\<close> or \<open>cancel_orders\<close> whose
  position side is neither \<open>LONG\<close> nor \<open>SHORT\<close> is stamped with symbol, timestamp
  and action like every other order of the call, but the bot that results is the one
  that results from the call without it: it reaches neither pending queue and changes
  nothing else.  A call with that order alone leaves the bot as it is.
\<close>

theorem other_side_discarded:
  assumes "position_side order \<noteq> LONG" and "position_side order \<noteq> SHORT"
  shows "fst (create_orders s (xs @ order # ys)) = fst (create_orders s (xs @ ys)) \<and>
    snd (create_orders s (xs @ order # ys)) =
      snd (create_orders s xs)
      @ [order\<lparr>symbol := bot_symbol s, timestamp := current_timestamp s, action := NEW\<rparr>]
      @ snd (create_orders s ys) \<and>
    fst (cancel_orders s (xs @ order # ys)) = fst (cancel_orders s (xs @ ys)) \<and>
    snd (cancel_orders s (xs @ order # ys)) =
      snd (cancel_orders s xs)
      @ [order\<lparr>symbol := bot_symbol s, timestamp := current_timestamp s, action := CANCELED\<rparr>]
      @ snd (cancel_orders s ys) \<and>
    fst (create_orders s [order]) = s \<and> fst (cancel_orders s [order]) = s"
  using assms submit_skip [OF assms, of s NEW xs ys] submit_skip [OF assms, of s CANCELED xs ys]
  by (simp add: create_orders_def cancel_orders_def)
    (simp add: submit_def stamp_def Let_def add_long_def add_short_def)

theorem other_side_discarded_witness:
  "position_side other_order \<noteq> LONG \<and> position_side other_order \<noteq> SHORT \<and>
   orders_to_execute (fst (create_orders base_bot [trigger_order, other_order])) =
     \<lparr>long = [trigger_order], short = []\<rparr> \<and>
   snd (create_orders base_bot [trigger_order, other_order]) = [trigger_order, other_order] \<and>
   orders_to_execute (fst (cancel_orders base_bot [other_order])) = \<lparr>long = [], short = []\<rparr>"
proof -
  have a: "position_side other_order \<noteq> LONG" "position_side other_order \<noteq> SHORT"
    by (simp_all add: other_order_def)
  show ?thesis
    using a other_side_discarded [OF a, of base_bot "[trigger_order]" "[]"]
      other_side_discarded [OF a, of base_bot "[]" "[]"]
    by (simp add: create_orders_def cancel_orders_def submit_def Let_def add_long_def
        add_short_def stamp_def base_bot_def empty_book_def trigger_order_def other_order_def)
qed

subsection \<open>The driver\<close>

lemma step_same_config: "same_config s (fst (execute_exchange_logic bp s c))"
proof (cases "available_margin s c \<le> 0")
  case True
  then show ?thesis
    by (simp add: execute_exchange_logic_def liquidate_long_def liquidate_short_def
        same_config_def Let_def)
next
  case False
  have "same_config s (match_short bp c (match_long bp c s))"
    using match_long_same [of s bp c] match_short_same [of "match_long bp c s" bp c]
      same_config_trans by blast
  then have "same_config s
      (admit_short c (admit_long c (match_short bp c (match_long bp c s))))"
    using admit_long_result [of "match_short bp c (match_long bp c s)" c]
      admit_short_result [of "admit_long c (match_short bp c (match_long bp c s))" c]
      same_config_trans by blast
  with False show ?thesis
    by (simp add: execute_exchange_logic_def)
qed

lemma step_timestamp:
  "current_timestamp (fst (execute_exchange_logic bp s c)) = current_timestamp s"
  using step_same_config [of s bp c] by (simp add: same_config_def)

lemma cadence_append:
  "cadence ci lu (ks @ [k]) \<longleftrightarrow>
     cadence ci lu ks \<and>
     ci * 1000 \<le> real_of_int (r_ts (fst k)) - real_of_int (last_call lu ks) \<and>
     snd k \<noteq> [] \<and> last (snd k) = prepare_candle (fst k)"
  by (induction ks arbitrary: lu) (auto simp: last_call_def)

lemma run_candles_inv:
  assumes "driver_inv (strategy_call_interval st) t0 seen d"
  shows "\<exists>n \<le> length rows.
    driver_inv (strategy_call_interval st) t0 (seen @ map prepare_candle (take n rows))
      (run_candles bp st rows d) \<and>
    (halted (run_candles bp st rows d) \<longleftrightarrow> halted d \<or> n < length rows)"
  using assms
proof (induction rows arbitrary: d seen)
  case Nil
  then show ?case by simp
next
  case (Cons i rows)
  let ?s = "(bot d)\<lparr>current_timestamp := r_ts i\<rparr>"
  let ?r = "execute_exchange_logic bp ?s (prepare_candle i)"
  let ?pl = "price_list d @ [prepare_candle i]"
  have ts: "current_timestamp (fst ?r) = r_ts i"
    by (simp add: step_timestamp)
  show ?case
  proof (cases "snd ?r")
    case False
    then have run: "run_candles bp st (i # rows) d = d\<lparr>bot := fst ?r, halted := True\<rparr>"
      by (simp add: Let_def)
    have "driver_inv (strategy_call_interval st) t0 (seen @ map prepare_candle (take 0 (i # rows)))
        (run_candles bp st (i # rows) d)"
      using Cons.prems by (simp add: run driver_inv_def del: run_candles.simps)
    moreover have "halted (run_candles bp st (i # rows) d) \<longleftrightarrow> halted d \<or> 0 < length (i # rows)"
      by (simp add: run del: run_candles.simps)
    ultimately show ?thesis by blast
  next
    case True
    show ?thesis
    proof (cases "real_of_int (r_ts i) - real_of_int (last_update d)
        \<ge> strategy_call_interval st * 1000")
      case call: True
      let ?d = "d\<lparr>bot := strategy_decide st (fst ?r) ?pl, price_list := [],
                      last_update := r_ts i, calls := calls d @ [(i, ?pl)]\<rparr>"
      have run: "run_candles bp st (i # rows) d = run_candles bp st rows ?d"
        using True call ts by (simp add: Let_def)
      have inv: "driver_inv (strategy_call_interval st) t0 (seen @ [prepare_candle i]) ?d"
        using Cons.prems call
        by (auto simp: driver_inv_def cadence_append last_call_def)
      obtain n where n: "n \<le> length rows"
        "driver_inv (strategy_call_interval st) t0
           ((seen @ [prepare_candle i]) @ map prepare_candle (take n rows))
           (run_candles bp st rows ?d)"
        "halted (run_candles bp st rows ?d) \<longleftrightarrow> halted ?d \<or> n < length rows"
        using Cons.IH [OF inv] by blast
      have "Suc n \<le> length (i # rows) \<and>
        driver_inv (strategy_call_interval st) t0
          (seen @ map prepare_candle (take (Suc n) (i # rows)))
          (run_candles bp st (i # rows) d) \<and>
        (halted (run_candles bp st (i # rows) d) \<longleftrightarrow> halted d \<or> Suc n < length (i # rows))"
        using n by (simp add: run del: run_candles.simps)
      then show ?thesis by blast
    next
      case nocall: False
      let ?d = "d\<lparr>bot := fst ?r, price_list := ?pl\<rparr>"
      have run: "run_candles bp st (i # rows) d = run_candles bp st rows ?d"
        using True nocall ts by (simp add: Let_def)
      have inv: "driver_inv (strategy_call_interval st) t0 (seen @ [prepare_candle i]) ?d"
        using Cons.prems by (auto simp: driver_inv_def)
      obtain n where n: "n \<le> length rows"
        "driver_inv (strategy_call_interval st) t0
           ((seen @ [prepare_candle i]) @ map prepare_candle (take n rows))
           (run_candles bp st rows ?d)"
        "halted (run_candles bp st rows ?d) \<longleftrightarrow> halted ?d \<or> n < length rows"
        using Cons.IH [OF inv] by blast
      have "Suc n \<le> length (i # rows) \<and>
        driver_inv (strategy_call_interval st) t0
          (seen @ map prepare_candle (take (Suc n) (i # rows)))
          (run_candles bp st (i # rows) d) \<and>
        (halted (run_candles bp st (i # rows) d) \<longleftrightarrow> halted d \<or> Suc n < length (i # rows))"
        using n by (simp add: run del: run_candles.simps)
      then show ?thesis by blast
    qed
  qed
qed

lemma run_candles_halted:
  assumes "\<not> halted d" and "halted (run_candles bp st rows d)"
  shows "run_candles bp st (rows @ rest) d = run_candles bp st rows d"
  using assms
proof (induction rows arbitrary: d)
  case Nil
  then show ?case by simp
next
  case (Cons i rows)
  let ?s = "(bot d)\<lparr>current_timestamp := r_ts i\<rparr>"
  let ?r = "execute_exchange_logic bp ?s (prepare_candle i)"
  let ?pl = "price_list d @ [prepare_candle i]"
  show ?case
  proof (cases "snd ?r")
    case False
    then show ?thesis by (simp add: Let_def)
  next
    case True
    show ?thesis
    proof (cases "real_of_int (current_timestamp (fst ?r)) - real_of_int (last_update d)
        \<ge> strategy_call_interval st * 1000")
      case call: True
      let ?d = "d\<lparr>bot := strategy_decide st (fst ?r) ?pl, price_list := [],
                      last_update := current_timestamp (fst ?r), calls := calls d @ [(i, ?pl)]\<rparr>"
      have run: "\<And>xs. run_candles bp st (i # xs) d = run_candles bp st xs ?d"
        using True call by (simp add: Let_def)
      have "\<not> halted ?d" using Cons.prems(1) by simp
      moreover have "halted (run_candles bp st rows ?d)"
        using Cons.prems(2) by (simp only: run)
      ultimately have "run_candles bp st (rows @ rest) ?d = run_candles bp st rows ?d"
        by (rule Cons.IH)
      then show ?thesis
        using run [of rows] run [of "rows @ rest"] by (simp del: run_candles.simps)
    next
      case nocall: False
      let ?d = "d\<lparr>bot := fst ?r, price_list := ?pl\<rparr>"
      have run: "\<And>xs. run_candles bp st (i # xs) d = run_candles bp st xs ?d"
        using True nocall by (simp add: Let_def)
      have "\<not> halted ?d" using Cons.prems(1) by simp
      moreover have "halted (run_candles bp st rows ?d)"
        using Cons.prems(2) by (simp only: run)
      ultimately have "run_candles bp st (rows @ rest) ?d = run_candles bp st rows ?d"
        by (rule Cons.IH)
      then show ?thesis
        using run [of rows] run [of "rows @ rest"] by (simp del: run_candles.simps)
    qed
  qed
qed

lemma cadence_nth:
  "cadence ci lu ks \<Longrightarrow> k < length ks \<Longrightarrow>
   ci * 1000 \<le> real_of_int (r_ts (fst (ks ! k)))
      - real_of_int (if k = 0 then lu else r_ts (fst (ks ! (k - 1)))) \<and>
   snd (ks ! k) \<noteq> [] \<and> last (snd (ks ! k)) = prepare_candle (fst (ks ! k))"
proof (induction ks arbitrary: lu k)
  case Nil
  then show ?case by simp
next
  case (Cons a ks)
  show ?case
  proof (cases k)
    case 0
    with Cons.prems show ?thesis by simp
  next
    case (Suc j)
    have c: "cadence ci (r_ts (fst a)) ks" and j: "j < length ks"
      using Cons.prems Suc by simp_all
    show ?thesis
      using Cons.IH [OF c j] Suc by (cases j) simp_all
  qed
qed

text \<open>
  Claim C9.  In a run of \<open>start_websocket\<close>, every invocation of \<open>decide\<close> happens
  at a row whose timestamp is at least \<open>call_interval * 1000\<close> after the value of
  \<open>last_update\<close>, which is the timestamp of the previous invocation, or of the first
  row when there is none; the argument of every invocation is not empty and ends with
  the candle of that row, and the arguments of all invocations, followed by the buffer
  left at the end, are exactly the candles of the rows processed, in order, so each
  invocation receives the candles since the previous one and the buffer restarts empty
  after it.  The run is halted exactly when it has not processed every row, and a
  halted run is not changed by any rows that follow: \<open>decide\<close> is not invoked again.
\<close>

theorem decide_cadence:
  assumes "start_websocket bp st (row # rows) s = Some d"
  shows
    "(\<forall>k < length (calls d).
        strategy_call_interval st * 1000
          \<le> real_of_int (r_ts (fst (calls d ! k)))
            - real_of_int (if k = 0 then r_ts row else r_ts (fst (calls d ! (k - 1)))) \<and>
        snd (calls d ! k) \<noteq> [] \<and>
        last (snd (calls d ! k)) = prepare_candle (fst (calls d ! k))) \<and>
     last_update d = (if calls d = [] then r_ts row else r_ts (fst (last (calls d)))) \<and>
     (\<exists>n \<le> length (row # rows).
        concat (map snd (calls d)) @ price_list d = map prepare_candle (take n (row # rows)) \<and>
        (halted d \<longleftrightarrow> n < length (row # rows))) \<and>
     (halted d \<longrightarrow> start_websocket bp st ((row # rows) @ rest) s = Some d)"
proof -
  let ?d0 = "\<lparr>bot = s, price_list = [], last_update = r_ts row, calls = [], halted = False\<rparr>"
  have d: "d = run_candles bp st (row # rows) ?d0"
    using assms by (simp add: start_websocket_def del: run_candles.simps)
  have i0: "driver_inv (strategy_call_interval st) (r_ts row) [] ?d0"
    by (simp add: driver_inv_def last_call_def)
  obtain n where n: "n \<le> length (row # rows)"
    "driver_inv (strategy_call_interval st) (r_ts row)
       ([] @ map prepare_candle (take n (row # rows))) d"
    "halted d \<longleftrightarrow> halted ?d0 \<or> n < length (row # rows)"
    using run_candles_inv [OF i0, of "row # rows" bp] d by blast
  have a: "\<forall>k < length (calls d).
        strategy_call_interval st * 1000
          \<le> real_of_int (r_ts (fst (calls d ! k)))
            - real_of_int (if k = 0 then r_ts row else r_ts (fst (calls d ! (k - 1)))) \<and>
        snd (calls d ! k) \<noteq> [] \<and>
        last (snd (calls d ! k)) = prepare_candle (fst (calls d ! k))"
    using n(2) cadence_nth [of "strategy_call_interval st" "r_ts row" "calls d"]
    by (simp add: driver_inv_def)
  have b: "last_update d = (if calls d = [] then r_ts row else r_ts (fst (last (calls d))))"
    using n(2) by (simp add: driver_inv_def last_call_def)
  have c: "\<exists>n \<le> length (row # rows).
        concat (map snd (calls d)) @ price_list d = map prepare_candle (take n (row # rows)) \<and>
        (halted d \<longleftrightarrow> n < length (row # rows))"
    using n by (auto simp: driver_inv_def)
  have e: "halted d \<longrightarrow> start_websocket bp st ((row # rows) @ rest) s = Some d"
  proof
    assume h: "halted d"
    have "run_candles bp st ((row # rows) @ rest) ?d0 = run_candles bp st (row # rows) ?d0"
      by (rule run_candles_halted) (use h d in simp_all)
    then show "start_websocket bp st ((row # rows) @ rest) s = Some d"
      using d by (simp add: start_websocket_def del: run_candles.simps)
  qed
  from a b c e show ?thesis by blast
qed

lemma idle_step:
  assumes "open_orders s = empty_book" and "orders_to_execute s = empty_book"
    and "0 < available_margin s c"
  shows "execute_exchange_logic bp s c = (s, True)"
  using assms
  by (simp add: execute_exchange_logic_def match_long_def match_short_def admit_long_def
      admit_short_def delete_long_def delete_short_def empty_book_def Let_def)

lemma idle_run:
  "start_websocket zero_bankruptcy_price idle_strategy [row_at 0, row_at 500, row_at 1000]
     base_bot =
   Some \<lparr>bot = base_bot\<lparr>current_timestamp := 1000\<rparr>, price_list = [], last_update = 1000,
     calls = [(row_at 1000, [prepare_candle (row_at 0), prepare_candle (row_at 500),
       prepare_candle (row_at 1000)])], halted = False\<rparr>"
proof -
  have m: "\<And>t c. 0 < available_margin (base_bot\<lparr>current_timestamp := t\<rparr>) c"
    by (simp add: available_margin_def calculate_available_margin_def calculate_long_pnl_def
        calculate_short_pnl_def base_bot_def flat_def)
  have st: "\<And>t c. execute_exchange_logic zero_bankruptcy_price
      (base_bot\<lparr>current_timestamp := t\<rparr>) c = (base_bot\<lparr>current_timestamp := t\<rparr>, True)"
    by (rule idle_step) (simp_all add: m, simp_all add: base_bot_def)
  show ?thesis
    by (simp add: start_websocket_def Let_def st idle_strategy_def row_at_def)
qed

lemma liq_run:
  "halted (run_candles zero_bankruptcy_price idle_strategy [liq_row, row_at 500]
     \<lparr>bot = liq_bot, price_list = [], last_update = 0, calls = [], halted = False\<rparr>) \<and>
   calls (run_candles zero_bankruptcy_price idle_strategy [liq_row, row_at 500]
     \<lparr>bot = liq_bot, price_list = [], last_update = 0, calls = [], halted = False\<rparr>) = []"
proof -
  have m: "available_margin (liq_bot\<lparr>current_timestamp := 0\<rparr>) (prepare_candle liq_row) \<le> 0"
    by (simp add: available_margin_def calculate_available_margin_def calculate_long_pnl_def
        calculate_short_pnl_def liq_bot_def base_bot_def flat_def liq_row_def prepare_candle_def)
  have st: "\<not> snd (execute_exchange_logic zero_bankruptcy_price
      (liq_bot\<lparr>current_timestamp := 0\<rparr>) (prepare_candle liq_row))"
    using m by (simp add: execute_exchange_logic_def)
  have t: "r_ts liq_row = 0"
    by (simp add: liq_row_def)
  show ?thesis
    using st by (simp add: Let_def t)
qed

theorem decide_cadence_witness:
  "start_websocket zero_bankruptcy_price idle_strategy [row_at 0, row_at 500, row_at 1000]
     base_bot =
   Some \<lparr>bot = base_bot\<lparr>current_timestamp := 1000\<rparr>, price_list = [], last_update = 1000,
     calls = [(row_at 1000, [prepare_candle (row_at 0), prepare_candle (row_at 500),
       prepare_candle (row_at 1000)])], halted = False\<rparr> \<and>
   strategy_call_interval idle_strategy * 1000
     \<le> real_of_int (r_ts (row_at 1000)) - real_of_int (r_ts (row_at 0)) \<and>
   (\<exists>d. start_websocket zero_bankruptcy_price idle_strategy [liq_row, row_at 500] liq_bot
          = Some d \<and>
        halted d \<and> calls d = [] \<and>
        start_websocket zero_bankruptcy_price idle_strategy
          [liq_row, row_at 500, row_at 1000] liq_bot = Some d)"
proof -
  let ?d = "run_candles zero_bankruptcy_price idle_strategy [liq_row, row_at 500]
     \<lparr>bot = liq_bot, price_list = [], last_update = 0, calls = [], halted = False\<rparr>"
  have e: "start_websocket zero_bankruptcy_price idle_strategy [liq_row, row_at 500] liq_bot
      = Some ?d"
    by (simp add: start_websocket_def liq_row_def del: run_candles.simps)
  have x: "start_websocket zero_bankruptcy_price idle_strategy
      [liq_row, row_at 500, row_at 1000] liq_bot = Some ?d"
    using decide_cadence [OF e, of "[row_at 1000]"] liq_run by simp
  have a: "strategy_call_interval idle_strategy * 1000
     \<le> real_of_int (r_ts (row_at 1000)) - real_of_int (r_ts (row_at 0))"
    using decide_cadence [OF idle_run, of "[]"] by (simp add: idle_strategy_def row_at_def)
  show ?thesis
    using idle_run a e x liq_run by blast
qed

subsection \<open>Removal of filled orders from the short book\<close>

lemma short_order_step_books:
  assumes "position_side order = SHORT"
  shows "long (open_orders (fst (short_order_step bp c (s, r) order))) = long (open_orders s) \<and>
    ident ` set (short (open_orders (fst (short_order_step bp c (s, r) order))))
      \<subseteq> ident ` set (short (open_orders s)) \<and>
    (short_execution c order \<and> qty order \<le> c_volume c \<longrightarrow>
       ident order \<notin> ident ` set (short (open_orders (fst (short_order_step bp c (s, r) order))))) \<and>
    set (snd (short_order_step bp c (s, r) order)) \<subseteq> insert order (set r)"
proof (cases "short_execution c order")
  case False
  then show ?thesis by (auto simp: short_order_step_def)
next
  case True
  show ?thesis
  proof (cases "qty order \<le> c_volume c")
    case filled: True
    have "open_orders (fst (short_order_step bp c (s, r) order)) =
        forward_order (emitted s c order) (open_orders s)"
      using True filled by (simp add: short_order_step_def Let_def emitted_def)
    moreover have "forward_order (emitted s c order) (open_orders s) =
        delete_short [emitted s c order] (open_orders s)"
      using assms filled by (simp add: forward_order_def emitted_action)
    moreover have "snd (short_order_step bp c (s, r) order) = r @ [order]"
      using True filled by (simp add: short_order_step_def Let_def)
    ultimately show ?thesis
      using True filled
      by (auto simp: delete_short_def listed_ident)
  next
    case partial: False
    have "open_orders (fst (short_order_step bp c (s, r) order)) =
        forward_order (emitted s c order)
          (set_qty_short order (qty order - c_volume c) (open_orders s))"
      using True partial by (simp add: short_order_step_def Let_def emitted_def)
    moreover have "forward_order (emitted s c order)
          (set_qty_short order (qty order - c_volume c) (open_orders s)) =
        set_qty_short (emitted s c order) (qty (emitted s c order))
          (set_qty_short order (qty order - c_volume c) (open_orders s))"
      using assms partial by (simp add: forward_order_def emitted_action)
    moreover have "snd (short_order_step bp c (s, r) order) = r"
      using True partial by (simp add: short_order_step_def Let_def)
    ultimately show ?thesis
      using partial by (auto simp: set_qty_short_def)
  qed
qed

lemma short_loop_books:
  assumes "\<forall>x \<in> set xs. position_side x = SHORT"
  shows "long (open_orders (fst (foldl (short_order_step bp c) (s, r) xs))) = long (open_orders s) \<and>
    ident ` set (short (open_orders (fst (foldl (short_order_step bp c) (s, r) xs))))
      \<subseteq> ident ` set (short (open_orders s)) \<and>
    (\<forall>x \<in> set xs. short_execution c x \<and> qty x \<le> c_volume c \<longrightarrow>
       ident x \<notin> ident ` set (short (open_orders (fst (foldl (short_order_step bp c) (s, r) xs))))) \<and>
    set (snd (foldl (short_order_step bp c) (s, r) xs)) \<subseteq> set xs \<union> set r"
  using assms
proof (induction xs arbitrary: s r)
  case Nil
  show ?case by simp
next
  case (Cons x xs)
  obtain s' r' where st: "short_order_step bp c (s, r) x = (s', r')"
    by (cases "short_order_step bp c (s, r) x")
  have sx: "position_side x = SHORT" and sxs: "\<forall>y \<in> set xs. position_side y = SHORT"
    using Cons.prems by simp_all
  have one: "long (open_orders s') = long (open_orders s)"
    "ident ` set (short (open_orders s')) \<subseteq> ident ` set (short (open_orders s))"
    "short_execution c x \<and> qty x \<le> c_volume c \<longrightarrow>
       ident x \<notin> ident ` set (short (open_orders s'))"
    "set r' \<subseteq> insert x (set r)"
    using short_order_step_books [OF sx, of bp c s r] st by simp_all
  let ?t = "fst (foldl (short_order_step bp c) (s', r') xs)"
  have ih: "long (open_orders ?t) = long (open_orders s')"
    "ident ` set (short (open_orders ?t)) \<subseteq> ident ` set (short (open_orders s'))"
    "\<forall>y \<in> set xs. short_execution c y \<and> qty y \<le> c_volume c \<longrightarrow>
       ident y \<notin> ident ` set (short (open_orders ?t))"
    "set (snd (foldl (short_order_step bp c) (s', r') xs)) \<subseteq> set xs \<union> set r'"
    using Cons.IH [OF sxs, of s' r'] by simp_all
  have f: "foldl (short_order_step bp c) (s, r) (x # xs) = foldl (short_order_step bp c) (s', r') xs"
    by (simp add: st)
  have a: "long (open_orders ?t) = long (open_orders s)"
    using one(1) ih(1) by simp
  note sub = ih(2)
  have b: "ident ` set (short (open_orders ?t)) \<subseteq> ident ` set (short (open_orders s))"
    using sub one(2) by (rule subset_trans)
  have d: "\<forall>y \<in> set (x # xs). short_execution c y \<and> qty y \<le> c_volume c \<longrightarrow>
       ident y \<notin> ident ` set (short (open_orders ?t))"
  proof
    fix y
    assume y: "y \<in> set (x # xs)"
    show "short_execution c y \<and> qty y \<le> c_volume c \<longrightarrow>
       ident y \<notin> ident ` set (short (open_orders ?t))"
    proof (cases "y = x")
      case True
      then show ?thesis using one(3) sub by blast
    next
      case False
      then have "y \<in> set xs" using y by simp
      then show ?thesis using ih(3) by blast
    qed
  qed
  have e: "set (snd (foldl (short_order_step bp c) (s', r') xs)) \<subseteq> set (x # xs) \<union> set r"
    using one(4) ih(4) by auto
  show ?case
    unfolding f using a b d e by (intro conjI)
qed

text \<open>
  The call after the loop over the short book is \<open>delete_long\<close> (line 233), where
  the pending queues use \<open>delete_short\<close> for the short side (line 263).  Whatever
  list it is given, it leaves the short book as it is, so the removal list built on
  line 202 never reaches the short book.
\<close>

lemma delete_long_short: "short (delete_long os ol) = short ol"
  by (simp add: delete_long_def)

text \<open>
  Claim C6.  On books that are partitioned by position side (every order of the long
  book has side \<open>LONG\<close>, every order of the short book side \<open>SHORT\<close>), the
  matching of the short book leaves the long book as it is, and an order of the short
  book that executes with a quantity within the volume of the candle, so that its
  action becomes \<open>FILLED\<close>, is not in the short book afterwards, nor is any order
  with its identity.  The removal is the one \<open>handle_order_update\<close> performs when it
  is given the filled working copy; the call of line 233 removes nothing, from either
  book.
\<close>

theorem short_fill_removed:
  assumes "\<forall>x \<in> set (long (open_orders s)). position_side x = LONG"
    and "\<forall>x \<in> set (short (open_orders s)). position_side x = SHORT"
  shows "long (open_orders (match_short bp c s)) = long (open_orders s) \<and>
    (\<forall>x \<in> set (short (open_orders s)). short_execution c x \<and> qty x \<le> c_volume c \<longrightarrow>
       x \<notin> set (short (open_orders (match_short bp c s))) \<and>
       \<not> listed (short (open_orders (match_short bp c s))) x)"
proof -
  let ?r = "foldl (short_order_step bp c) (s, []) (short (open_orders s))"
  have l: "long (open_orders (fst ?r)) = long (open_orders s)"
    "\<forall>x \<in> set (short (open_orders s)). short_execution c x \<and> qty x \<le> c_volume c \<longrightarrow>
       ident x \<notin> ident ` set (short (open_orders (fst ?r)))"
    "set (snd ?r) \<subseteq> set (short (open_orders s)) \<union> set []"
    using short_loop_books [OF assms(2), of bp c s "[]"] by simp_all
  have rem: "\<forall>z \<in> set (snd ?r). position_side z = SHORT"
    using l(3) assms(2) by auto
  have lg: "\<forall>y \<in> set (long (open_orders (fst ?r))). position_side y = LONG"
    using l(1) assms(1) by simp
  have del: "delete_long (snd ?r) (open_orders (fst ?r)) = open_orders (fst ?r)"
    using lg rem by (rule delete_long_other_side)
  have books: "open_orders (match_short bp c s) = open_orders (fst ?r)"
    using del by (simp add: match_short_def Let_def)
  have a: "long (open_orders (match_short bp c s)) = long (open_orders s)"
    using l(1) by (simp only: books)
  have b: "\<forall>x \<in> set (short (open_orders s)). short_execution c x \<and> qty x \<le> c_volume c \<longrightarrow>
       \<not> listed (short (open_orders (match_short bp c s))) x"
    using l(2) by (simp only: books listed_ident) 
  have d: "\<forall>x \<in> set (short (open_orders s)). short_execution c x \<and> qty x \<le> c_volume c \<longrightarrow>
       x \<notin> set (short (open_orders (match_short bp c s)))"
    using b listed_self by blast
  from a b d show ?thesis by blast
qed

theorem short_fill_removed_witness:
  "map position_side (long (open_orders two_sided_bot)) = [LONG] \<and>
   map position_side (short (open_orders two_sided_bot)) = [SHORT] \<and>
   short_order \<in> set (short (open_orders two_sided_bot)) \<and>
   short_execution short_candle short_order \<and> qty short_order \<le> c_volume short_candle \<and>
   short_order \<notin> set (short (open_orders
     (match_short zero_bankruptcy_price short_candle two_sided_bot))) \<and>
   long (open_orders (match_short zero_bankruptcy_price short_candle two_sided_bot)) =
     [trigger_order\<lparr>price := 90\<rparr>]"
proof -
  have a: "\<forall>x \<in> set (long (open_orders two_sided_bot)). position_side x = LONG"
    by (simp add: two_sided_bot_def trigger_order_def)
  have b: "\<forall>x \<in> set (short (open_orders two_sided_bot)). position_side x = SHORT"
    by (simp add: two_sided_bot_def short_order_def)
  have m: "short_order \<in> set (short (open_orders two_sided_bot))"
    by (simp add: two_sided_bot_def)
  have e: "short_execution short_candle short_order \<and> qty short_order \<le> c_volume short_candle"
    by (simp add: short_execution_iff short_candle_def short_order_def)
  have l: "long (open_orders two_sided_bot) = [trigger_order\<lparr>price := 90\<rparr>]"
    by (simp add: two_sided_bot_def)
  have s: "map position_side (long (open_orders two_sided_bot)) = [LONG]"
    "map position_side (short (open_orders two_sided_bot)) = [SHORT]"
    by (simp_all add: two_sided_bot_def trigger_order_def short_order_def)
  show ?thesis
    using s m e l short_fill_removed [OF a b, of zero_bankruptcy_price short_candle]
    by simp
qed

end
